theory Spec2Isabelle
  imports Main "HOL-Library.Word" "HOL-Library.Multiset"
begin

unbundle bit_operations_syntax

section \<open>Common/PageAllocator.h: the page-managed slab allocator\<close>

text \<open>
  A shallow embedding of \<^verbatim>\<open>PageAllocator\<close> and of the routing of
  \<^verbatim>\<open>AggregateAllocator\<close>. Addresses (\<^verbatim>\<open>uintptr_t\<close>, \<^verbatim>\<open>void*\<close>, \<^verbatim>\<open>char*\<close>) are
  natural numbers, \<open>0\<close> is \<^verbatim>\<open>nullptr\<close>; the layout is LP64 (a pointer is 8 bytes,
  stored little-endian). The 16-bit and 32-bit fields are machine words, so \<^verbatim>\<open>++\<close> and
  \<^verbatim>\<open>--\<close> wrap as in the source. The mutex \<^verbatim>\<open>allocLock\<close> is not modelled: the operations
  run one after the other.
\<close>

type_synonym addr = nat
type_synonym memory = "addr \<Rightarrow> 8 word"

text \<open>
  How a call can end without returning. The first three are the \<^verbatim>\<open>CHECK_DETAIL\<close>
  assertions of the source (an abort with a diagnostic); the others are undefined
  behaviour of the C++ (no diagnostic): a write through a null \<^verbatim>\<open>Page*\<close>, an integer
  division by zero, an access to a \<^verbatim>\<open>Page\<close> header at an address that holds no page of
  this allocator, and a loop that never ends.
\<close>

datatype error =
    WrongAllocator
  | MemsetFail
  | DestroyPageInUse
  | NullDeref
  | DivByZero
  | BadPage
  | Diverges

definition is_check_failure :: "error \<Rightarrow> bool" where
  "is_check_failure e = (e = WrongAllocator \<or> e = MemsetFail \<or> e = DestroyPageInUse)"

definition then_do :: "error + 'a \<Rightarrow> ('a \<Rightarrow> error + 'b) \<Rightarrow> error + 'b" where
  "then_do r f = (case r of Inl e \<Rightarrow> Inl e | Inr x \<Rightarrow> f x)"

subsection \<open>Helpers that the header takes from elsewhere\<close>

text \<open>
  Modelled from the spec: \<^verbatim>\<open>MapleRuntime::AlignUp<T>\<close> is declared in Base/Globals.h,
  which is not among the sources. The spec says "rounding the slot size up to the
  allocation alignment (a fixed power-of-two, e.g. 8)"; the result has the type \<^verbatim>\<open>T\<close> of
  the arguments, so it is computed modulo \<open>2 ^ LENGTH('a)\<close>.
\<close>

definition AlignUp :: "'a::len word \<Rightarrow> 'a word \<Rightarrow> 'a word" where
  "AlignUp sz alignment = (sz + (alignment - 1)) AND NOT (alignment - 1)"

text \<open>
  Modelled from the spec: \<^verbatim>\<open>MapleRuntime::AlignDown<uintptr_t>\<close> (Base/Globals.h, not
  among the sources): "aligning the pointer down to the enclosing page boundary". For a
  power-of-two alignment this is \<^verbatim>\<open>x & ~(alignment - 1)\<close>.
\<close>

definition AlignDown :: "addr \<Rightarrow> nat \<Rightarrow> addr" where
  "AlignDown x alignment = x - x mod alignment"

definition LOG_ALLOC_ALIGNMENT :: nat where
  "LOG_ALLOC_ALIGNMENT = 3"

definition ALLOC_ALIGNMENT :: "'a::len word" where
  "ALLOC_ALIGNMENT = push_bit LOG_ALLOC_ALIGNMENT 1"

text \<open>
  \<^verbatim>\<open>sizeof(Page)\<close> on LP64: three pointers, two \<^verbatim>\<open>uint16_t\<close>, padded to the alignment
  of a pointer.
\<close>

definition sizeof_Page :: nat where
  "sizeof_Page = 32"

text \<open>\<^verbatim>\<open>constexpr uint32_t offset = AlignUp<uint32_t>(sizeof(Page), ALLOC_ALIGNMENT)\<close>\<close>

definition offset :: nat where
  "offset = unat (AlignUp (of_nat sizeof_Page :: 32 word) ALLOC_ALIGNMENT)"

subsection \<open>Raw memory\<close>

text \<open>
  A \<^verbatim>\<open>Slot\<close> is one pointer, \<^verbatim>\<open>next\<close>, at the first 8 bytes of the slot.
  \<open>store_ptr m a v\<close> is \<^verbatim>\<open>reinterpret_cast<Slot*>(a)->next = v\<close> and \<open>load_ptr m a\<close> reads
  it back.
\<close>

definition store_ptr :: "memory \<Rightarrow> addr \<Rightarrow> addr \<Rightarrow> memory" where
  "store_ptr m a v = (\<lambda>x. if a \<le> x \<and> x < a + 8 then of_nat (v div 256 ^ (x - a)) else m x)"

definition load_ptr :: "memory \<Rightarrow> addr \<Rightarrow> addr" where
  "load_ptr m a = (\<Sum>i\<leftarrow>[0..<8]. unat (m (a + i)) * 256 ^ i)"

text \<open>
  \<^verbatim>\<open>memset_s(dest, destMax, c, count)\<close> of the bounds-checking C library, which the
  runtime links: it returns \<^verbatim>\<open>EOK\<close> (here \<open>True\<close>) after writing \<open>cnt\<close> bytes, and an
  error code without the write for a null destination, a zero or oversized \<open>destMax\<close>, or
  a count \<open>cnt > destMax\<close>.
\<close>

definition SECUREC_MEM_MAX_LEN :: nat where
  "SECUREC_MEM_MAX_LEN = 2147483647"

definition memset_s :: "memory \<Rightarrow> addr \<Rightarrow> nat \<Rightarrow> 8 word \<Rightarrow> nat \<Rightarrow> bool \<times> memory" where
  "memset_s m dest destMax c cnt =
     (if destMax = 0 \<or> destMax > SECUREC_MEM_MAX_LEN \<or> dest = 0 \<or> cnt > destMax
      then (False, m)
      else (True, \<lambda>x. if dest \<le> x \<and> x < dest + cnt then c else m x))"

subsection \<open>Page\<close>

record Page =
  pg_header :: addr
  pg_prev :: addr
  pg_next :: addr
  pg_total :: "16 word"
  pg_free :: "16 word"

text \<open>\<^verbatim>\<open>Page::Allocate\<close>: retrieve a slot from the free slot list.\<close>

definition Page_Allocate :: "memory \<Rightarrow> Page \<Rightarrow> addr \<times> Page" where
  "Page_Allocate m pg =
     (if pg_header pg \<noteq> 0
      then (pg_header pg,
            pg\<lparr>pg_header := load_ptr m (pg_header pg), pg_free := pg_free pg - 1\<rparr>)
      else (0, pg))"

text \<open>\<^verbatim>\<open>Page::Deallocate\<close>: return a slot to the free list.\<close>

definition Page_Deallocate :: "memory \<Rightarrow> Page \<Rightarrow> addr \<Rightarrow> memory \<times> Page" where
  "Page_Deallocate m pg slot =
     (store_ptr m slot (pg_header pg),
      pg\<lparr>pg_header := slot, pg_free := pg_free pg + 1\<rparr>)"

definition Available :: "Page \<Rightarrow> bool" where
  "Available pg = (pg_free pg \<noteq> 0)"

definition Empty :: "Page \<Rightarrow> bool" where
  "Empty pg = (pg_free pg = pg_total pg)"

subsection \<open>The page supplier\<close>

text \<open>
  Modelled from the spec: \<^verbatim>\<open>PagePool\<close> (PagePool.h) is not among the sources. The spec
  (section 6) gives its interface: "AcquirePage() -> raw page-aligned memory block of
  fixed size, or failure; ReleasePage(block)". The pool holds the pages it can still hand
  out (\<open>avail\<close>) and the pages it has handed out to this allocator (\<open>held\<close>).
\<close>

record PagePool =
  avail :: "addr list"
  held :: "addr list"

text \<open>
  Modelled from the spec: \<^verbatim>\<open>PagePool::GetPage()\<close> is missing from the sources. It hands out
  the next available page; a failure is a null pointer, as in the spec's design notes
  ("unchecked null dereference downstream of a failed page acquisition").
\<close>

definition GetPage :: "PagePool \<Rightarrow> addr \<times> PagePool" where
  "GetPage pl =
     (case avail pl of
        [] \<Rightarrow> (0, pl)
      | p # ps \<Rightarrow> (p, pl\<lparr>avail := ps, held := p # held pl\<rparr>))"

text \<open>
  Modelled from the spec: \<^verbatim>\<open>PagePool::ReturnPage(page)\<close> is missing from the sources. The
  page becomes available again.
\<close>

definition ReturnPage :: "PagePool \<Rightarrow> addr \<Rightarrow> PagePool" where
  "ReturnPage pl p = pl\<lparr>avail := p # avail pl, held := removeAll p (held pl)\<rparr>"

subsection \<open>PageAllocator\<close>

record PageAllocator =
  nonFull :: addr
  totalPages :: "32 word"
  slotSize :: "16 word"
  slotAlignment :: "16 word"

text \<open>
  The allocator together with what it works on: the \<^verbatim>\<open>Page\<close> headers of the pages it
  holds, by address, the raw memory of the slots, and the page supplier. A header lies
  in the first \<^verbatim>\<open>sizeof(Page)\<close> bytes of its page and the slots start at \<open>offset\<close>, after
  it, so the writes to slots that this model makes in \<open>mem\<close> never touch a header. A
  page that has been returned to the supplier has no header any more: an access to it is
  the error \<open>BadPage\<close>.
\<close>

record world =
  pa :: PageAllocator
  pages :: "addr \<rightharpoonup> Page"
  mem :: memory
  pool :: PagePool

text \<open>\<^verbatim>\<open>explicit PageAllocator(uint16_t size)\<close>\<close>

definition PageAllocator_new :: "16 word \<Rightarrow> PageAllocator" where
  "PageAllocator_new sz =
     \<lparr>nonFull = 0, totalPages = 0, slotSize = sz,
      slotAlignment = AlignUp sz ALLOC_ALIGNMENT\<rparr>"

text \<open>
  The default constructor \<^verbatim>\<open>PageAllocator()\<close> and \<^verbatim>\<open>Init(uint16_t size)\<close>, by which
  \<^verbatim>\<open>AggregateAllocator\<close> sets up its allocators.
\<close>

definition PageAllocator_default :: PageAllocator where
  "PageAllocator_default = \<lparr>nonFull = 0, totalPages = 0, slotSize = 0, slotAlignment = 0\<rparr>"

definition Init :: "PageAllocator \<Rightarrow> 16 word \<Rightarrow> PageAllocator" where
  "Init a sz = a\<lparr>slotSize := sz, slotAlignment := AlignUp sz ALLOC_ALIGNMENT\<rparr>"

definition modify_page :: "(addr \<rightharpoonup> Page) \<Rightarrow> addr \<Rightarrow> (Page \<Rightarrow> Page) \<Rightarrow> error + (addr \<rightharpoonup> Page)" where
  "modify_page pgs a f =
     (if a = 0 then Inl NullDeref
      else case pgs a of None \<Rightarrow> Inl BadPage | Some pg \<Rightarrow> Inr (pgs(a \<mapsto> f pg)))"

definition read_page :: "(addr \<rightharpoonup> Page) \<Rightarrow> addr \<Rightarrow> error + Page" where
  "read_page pgs a =
     (if a = 0 then Inl NullDeref
      else case pgs a of None \<Rightarrow> Inl BadPage | Some pg \<Rightarrow> Inr pg)"

text \<open>\<^verbatim>\<open>AddToList(Page*& list, Page& page)\<close>; the result is the new \<^verbatim>\<open>list\<close> and the headers.\<close>

definition AddToList :: "addr \<Rightarrow> addr \<Rightarrow> (addr \<rightharpoonup> Page) \<Rightarrow> error + addr \<times> (addr \<rightharpoonup> Page)" where
  "AddToList lst page pgs =
     then_do (if lst \<noteq> 0 then modify_page pgs lst (\<lambda>pg. pg\<lparr>pg_prev := page\<rparr>) else Inr pgs)
       (\<lambda>pgs1. then_do (modify_page pgs1 page (\<lambda>pg. pg\<lparr>pg_next := lst\<rparr>))
       (\<lambda>pgs2. Inr (page, pgs2)))"

text \<open>\<^verbatim>\<open>RemoveFromList(Page*& head, Page& page)\<close>\<close>

definition RemoveFromList :: "addr \<Rightarrow> addr \<Rightarrow> (addr \<rightharpoonup> Page) \<Rightarrow> error + addr \<times> (addr \<rightharpoonup> Page)" where
  "RemoveFromList head page pgs =
     then_do (read_page pgs page)
       (\<lambda>pg. let prv = pg_prev pg; nxt = pg_next pg in
         then_do
           (if page = head
            then then_do
                   (if nxt \<noteq> 0 then modify_page pgs nxt (\<lambda>q. q\<lparr>pg_prev := 0\<rparr>) else Inr pgs)
                   (\<lambda>pgs1. Inr (nxt, pgs1))
            else then_do
                   (if prv \<noteq> 0 then modify_page pgs prv (\<lambda>q. q\<lparr>pg_next := nxt\<rparr>) else Inr pgs)
                   (\<lambda>pgs1. then_do
                   (if nxt \<noteq> 0 then modify_page pgs1 nxt (\<lambda>q. q\<lparr>pg_prev := prv\<rparr>) else Inr pgs1)
                   (\<lambda>pgs2. Inr (head, pgs2))))
           (\<lambda>(head', pgs3). then_do
              (modify_page pgs3 page (\<lambda>q. q\<lparr>pg_prev := 0, pg_next := 0\<rparr>))
              (\<lambda>pgs4. Inr (head', pgs4))))"

text \<open>
  The loop of \<^verbatim>\<open>InitPage\<close>, which chains the slots. \<open>e\<close> is \<^verbatim>\<open>end\<close>, \<open>sa\<close> is
  \<^verbatim>\<open>slotAlignment\<close>. With \<open>sa = 0\<close> the loop of the source never ends, and this function
  is \<open>None\<close>.
\<close>

partial_function (option) link_slots :: "addr \<Rightarrow> nat \<Rightarrow> addr \<Rightarrow> addr \<Rightarrow> memory \<Rightarrow> memory option" where
  "link_slots e sa block prevSlot m =
     (let block' = block + sa;
          slotEnd = block' + sa - 1
      in if slotEnd > e then Some m
         else let cur = block' in link_slots e sa block' cur (store_ptr m prevSlot cur))"

text \<open>
  \<^verbatim>\<open>InitPage(Page& page)\<close>, with \<open>PS\<close> for \<^verbatim>\<open>AllocatorUtils::ALLOC_PAGE_SIZE\<close>, a constant
  that is defined outside the header. \<^verbatim>\<open>ALLOC_PAGE_SIZE - offset\<close> is computed in
  \<^verbatim>\<open>size_t\<close>, and the quotient is cut to the \<^verbatim>\<open>uint16_t\<close> of \<^verbatim>\<open>page.free\<close>.
\<close>

definition slot_count :: "nat \<Rightarrow> 16 word \<Rightarrow> nat" where
  "slot_count PS sa = ((PS + 2 ^ 64 - offset) mod 2 ^ 64) div unat sa"

definition InitPage :: "nat \<Rightarrow> 16 word \<Rightarrow> addr \<Rightarrow> (addr \<rightharpoonup> Page) \<Rightarrow> memory
    \<Rightarrow> error + (addr \<rightharpoonup> Page) \<times> memory" where
  "InitPage PS sa page pgs m =
     (if page = 0 then Inl NullDeref
      else if sa = 0 then Inl DivByZero
      else let fr = (of_nat (slot_count PS sa) :: 16 word) in
        if \<not> (fr \<ge> 1) then Inl WrongAllocator
        else let start = page;
                 e = start + PS - 1;
                 block = start + offset;
                 hd_slot = block
             in case link_slots e (unat sa) block hd_slot m of
                  None \<Rightarrow> Inl Diverges
                | Some m' \<Rightarrow>
                    Inr (pgs(page \<mapsto> \<lparr>pg_header = hd_slot, pg_prev = 0, pg_next = 0,
                                       pg_total = fr, pg_free = fr\<rparr>), m'))"

text \<open>\<^verbatim>\<open>DestroyPage(Page& page)\<close>: return the page to the supplier.\<close>

definition DestroyPage :: "addr \<Rightarrow> (addr \<rightharpoonup> Page) \<Rightarrow> PagePool \<Rightarrow> error + (addr \<rightharpoonup> Page) \<times> PagePool" where
  "DestroyPage page pgs pl =
     then_do (read_page pgs page)
       (\<lambda>pg. if pg_free pg \<noteq> pg_total pg then Inl DestroyPageInUse
              else Inr (pgs(page := None), ReturnPage pl page))"

text \<open>
  \<^verbatim>\<open>void* PageAllocator::Allocate()\<close>, in the two steps of its locked block and
  the zero-fill after it. First \<^verbatim>\<open>if (nonFull == nullptr) { ... }\<close>: a page is taken from
  the supplier, initialised and made the list.
\<close>

definition Allocate_new_page :: "nat \<Rightarrow> world \<Rightarrow> error + world" where
  "Allocate_new_page PS w =
     (if nonFull (pa w) = 0
      then let (cur, pl) = GetPage (pool w) in
           then_do (InitPage PS (slotAlignment (pa w)) cur (pages w) (mem w))
             (\<lambda>(pgs, m). Inr (w\<lparr>pa := (pa w)\<lparr>nonFull := cur, totalPages := totalPages (pa w) + 1\<rparr>,
                               pages := pgs, mem := m, pool := pl\<rparr>))
      else Inr w)"

text \<open>
  Then \<^verbatim>\<open>result = nonFull->Allocate()\<close> and the removal of a page that has become full.
\<close>

definition Allocate_take :: "world \<Rightarrow> error + addr \<times> world" where
  "Allocate_take w =
     then_do (read_page (pages w) (nonFull (pa w)))
       (\<lambda>pg. let (result, pg') = Page_Allocate (mem w) pg;
                  pgs1 = (pages w)(nonFull (pa w) \<mapsto> pg')
              in then_do
                   (if \<not> Available pg'
                    then RemoveFromList (nonFull (pa w)) (nonFull (pa w)) pgs1
                    else Inr (nonFull (pa w), pgs1))
                   (\<lambda>(head, pgs2). Inr (result, w\<lparr>pa := (pa w)\<lparr>nonFull := head\<rparr>, pages := pgs2\<rparr>)))"

text \<open>
  Last \<^verbatim>\<open>if (result != nullptr) CHECK_DETAIL(memset_s(result, slotSize, 0, slotSize) == EOK, ...)\<close>.
\<close>

definition Allocate_zero :: "addr \<times> world \<Rightarrow> error + addr \<times> world" where
  "Allocate_zero rw =
     (case rw of (result, w) \<Rightarrow>
        if result \<noteq> 0
        then (case memset_s (mem w) result (unat (slotSize (pa w))) 0 (unat (slotSize (pa w))) of
                (ok, m') \<Rightarrow> if ok then Inr (result, w\<lparr>mem := m'\<rparr>) else Inl MemsetFail)
        else Inr (result, w))"

definition Allocate :: "nat \<Rightarrow> world \<Rightarrow> error + addr \<times> world" where
  "Allocate PS w = then_do (then_do (Allocate_new_page PS w) Allocate_take) Allocate_zero"

text \<open>\<^verbatim>\<open>void PageAllocator::Deallocate(void* slot)\<close>\<close>

definition Deallocate :: "nat \<Rightarrow> world \<Rightarrow> addr \<Rightarrow> error + world" where
  "Deallocate PS w slot =
     (let cur = AlignDown slot PS in
      then_do (read_page (pages w) cur)
       (\<lambda>pg0. then_do
                 (if \<not> Available pg0 then AddToList (nonFull (pa w)) cur (pages w)
                  else Inr (nonFull (pa w), pages w))
       (\<lambda>(head1, pgs1). then_do (read_page pgs1 cur)
       (\<lambda>pg1. let (m', pg2) = Page_Deallocate (mem w) pg1 slot;
                   pgs2 = pgs1(cur \<mapsto> pg2)
               in if Empty pg2
                  then then_do (RemoveFromList head1 cur pgs2)
                    (\<lambda>(head2, pgs3). then_do (DestroyPage cur pgs3 (pool w))
                    (\<lambda>(pgs4, pl). Inr (w\<lparr>pa := (pa w)\<lparr>nonFull := head2,
                                                          totalPages := totalPages (pa w) - 1\<rparr>,
                                           pages := pgs4, mem := m', pool := pl\<rparr>)))
                  else Inr (w\<lparr>pa := (pa w)\<lparr>nonFull := head1\<rparr>, pages := pgs2, mem := m'\<rparr>)))))"


text \<open>
  The allocator as constructed, over a page supplier \<open>pl\<close> and a memory \<open>m\<close> of any
  content.
\<close>

definition init_world :: "16 word \<Rightarrow> PagePool \<Rightarrow> memory \<Rightarrow> world" where
  "init_world sz pl m = \<lparr>pa = PageAllocator_new sz, pages = Map.empty, mem = m, pool = pl\<rparr>"

subsection \<open>Sequences of calls\<close>

text \<open>
  A client calls \<^verbatim>\<open>Allocate\<close> and \<^verbatim>\<open>Deallocate\<close> in some order. The list beside the
  world holds the pointers that \<^verbatim>\<open>Allocate\<close> has returned and that have not been passed
  to \<^verbatim>\<open>Deallocate\<close> since (the live allocations). Passing any other pointer to
  \<^verbatim>\<open>Deallocate\<close> breaks the contract of the allocator (a double free, or a pointer it
  does not own), which the source does not detect: such a sequence is cut off with
  \<open>ContractViolation\<close>.
\<close>

datatype call = Alloc | Dealloc addr

datatype outcome = Failed error | ContractViolation

fun exec1 :: "nat \<Rightarrow> world \<times> addr list \<Rightarrow> call \<Rightarrow> outcome + world \<times> addr list" where
  "exec1 PS (w, live) Alloc =
     (case Allocate PS w of
        Inl e \<Rightarrow> Inl (Failed e)
      | Inr (p, w') \<Rightarrow> Inr (w', if p \<noteq> 0 then p # live else live))"
| "exec1 PS (w, live) (Dealloc p) =
     (if p \<notin> set live then Inl ContractViolation
      else case Deallocate PS w p of
             Inl e \<Rightarrow> Inl (Failed e)
           | Inr w' \<Rightarrow> Inr (w', removeAll p live))"

fun exec :: "nat \<Rightarrow> world \<times> addr list \<Rightarrow> call list \<Rightarrow> outcome + world \<times> addr list" where
  "exec PS s [] = Inr s"
| "exec PS s (c # cs) = (case exec1 PS s c of Inl e \<Rightarrow> Inl e | Inr s' \<Rightarrow> exec PS s' cs)"

section \<open>AggregateAllocator: the routing of a request\<close>

text \<open>
  \<^verbatim>\<open>RUN_ALLOC_LARGE_SIZE\<close> and \<^verbatim>\<open>RUNTYPE_SIZE_TO_RUN_IDX\<close> come from Common/RunType.h, which
  is not among the sources: they are the parameters \<open>large\<close> and \<open>size_to_idx\<close>. The
  result says which component the call is handed to, and with which arguments.
\<close>

datatype delegate =
    PageAllocator_Allocate "32 word"
  | PagePool_GetPage "64 word"
  | PageAllocator_Deallocate "32 word" addr
  | PagePool_ReturnPage addr "64 word"

definition AggregateAllocator_Allocate :: "32 word \<Rightarrow> (32 word \<Rightarrow> 32 word) \<Rightarrow> 64 word \<Rightarrow> delegate" where
  "AggregateAllocator_Allocate large size_to_idx sz =
     (let alignedSize = AlignUp (ucast sz :: 32 word) ALLOC_ALIGNMENT in
      if alignedSize \<le> large
      then let index = size_to_idx alignedSize in PageAllocator_Allocate index
      else PagePool_GetPage sz)"

definition AggregateAllocator_Deallocate :: "32 word \<Rightarrow> (32 word \<Rightarrow> 32 word) \<Rightarrow> addr \<Rightarrow> 64 word \<Rightarrow> delegate" where
  "AggregateAllocator_Deallocate large size_to_idx p sz =
     (let alignedSize = AlignUp (ucast sz :: 32 word) ALLOC_ALIGNMENT in
      if alignedSize \<le> large
      then let index = size_to_idx alignedSize in PageAllocator_Deallocate index p
      else PagePool_ReturnPage p sz)"


text \<open>
  The routing as the spec words it: the size "rounded up to the allocation alignment",
  as a number.
\<close>

definition aligned_size :: "nat \<Rightarrow> nat" where
  "aligned_size n = (n + 7) div 8 * 8"

section \<open>What is assumed of the configuration\<close>

text \<open>
  \<^verbatim>\<open>ALLOC_PAGE_SIZE\<close> is larger than the page header, a multiple of the allocation
  alignment, and small enough for the slot count of a page to fit the \<^verbatim>\<open>uint16_t\<close> fields
  \<^verbatim>\<open>total\<close> and \<^verbatim>\<open>free\<close> (the page sizes in use, 4 KiB to 64 KiB, are).
\<close>

definition page_size_ok :: "nat \<Rightarrow> bool" where
  "page_size_ok PS = (offset < PS \<and> PS \<le> 2 ^ 19 \<and> 8 dvd PS)"

definition ptr_err :: "error \<Rightarrow> bool" where
  "ptr_err e = (e = NullDeref \<or> e = BadPage)"

section \<open>The state between two calls\<close>

text \<open>
  The addresses of the slots of the page at \<open>page\<close>, for the stride \<open>sa\<close>: the first after
  the header, the others at stride offsets, as many as fit the page.
\<close>

definition slots_of :: "nat \<Rightarrow> nat \<Rightarrow> addr \<Rightarrow> addr list" where
  "slots_of PS sa page = map (\<lambda>k. page + offset + k * sa) [0..<(PS - offset) div sa]"

text \<open>
  \<open>chain m h xs\<close>: starting at \<open>h\<close> and following the \<^verbatim>\<open>next\<close> pointers in memory, the
  free list visits \<open>xs\<close>. What the last slot of \<open>xs\<close> points to is left open: the source
  never initialises the \<^verbatim>\<open>next\<close> of a page's last slot and relies on the count \<^verbatim>\<open>free\<close>.
\<close>

primrec chain :: "memory \<Rightarrow> addr \<Rightarrow> addr list \<Rightarrow> bool" where
  "chain m h [] = True"
| "chain m h (x # xs) = (h = x \<and> chain m (load_ptr m x) xs)"

text \<open>
  \<open>dseg pgs prv h xs t\<close>: the pages \<open>xs\<close> are linked from \<open>h\<close> to \<open>t\<close> through \<^verbatim>\<open>next\<close>,
  and the \<^verbatim>\<open>prev\<close> of each is its predecessor (\<open>prv\<close> for the first). \<open>dlist pgs h xs\<close>:
  \<open>xs\<close> is the whole list with head \<open>h\<close>, from a first page without predecessor to
  \<^verbatim>\<open>nullptr\<close>.
\<close>

primrec dseg :: "(addr \<rightharpoonup> Page) \<Rightarrow> addr \<Rightarrow> addr \<Rightarrow> addr list \<Rightarrow> addr \<Rightarrow> bool" where
  "dseg pgs prv h [] t = (h = t)"
| "dseg pgs prv h (x # xs) t =
     (h = x \<and> x \<noteq> 0 \<and>
      (case pgs x of None \<Rightarrow> False
       | Some pg \<Rightarrow> pg_prev pg = prv \<and> dseg pgs x (pg_next pg) xs t))"

definition dlist :: "(addr \<rightharpoonup> Page) \<Rightarrow> addr \<Rightarrow> addr list \<Rightarrow> bool" where
  "dlist pgs h xs = dseg pgs 0 h xs 0"

definition links :: "Page \<Rightarrow> addr \<times> addr" where
  "links pg = (pg_prev pg, pg_next pg)"

definition core :: "Page \<Rightarrow> addr \<times> 16 word \<times> 16 word" where
  "core pg = (pg_header pg, pg_total pg, pg_free pg)"

text \<open>
  What is assumed of the page supplier: its pages are distinct, not null, aligned to the
  page size, and inside the address space.
\<close>

definition pool_ok :: "nat \<Rightarrow> PagePool \<Rightarrow> bool" where
  "pool_ok PS pl =
     (distinct (avail pl @ held pl) \<and>
      (\<forall>p \<in> set (avail pl @ held pl). p \<noteq> 0 \<and> PS dvd p \<and> p + PS < 2 ^ 64))"

text \<open>
  The list \<^verbatim>\<open>nonFull\<close> holds exactly the pages with a free slot; a page outside it has
  null links.
\<close>

definition list_inv :: "world \<Rightarrow> bool" where
  "list_inv w =
     (\<exists>xs. dlist (pages w) (nonFull (pa w)) xs \<and> distinct xs \<and>
        (\<forall>p pg. pages w p = Some pg \<longrightarrow>
           (p \<in> set xs \<longleftrightarrow> pg_free pg \<noteq> 0) \<and>
           (p \<notin> set xs \<longrightarrow> pg_prev pg = 0 \<and> pg_next pg = 0)))"

text \<open>
  A page's free list visits \<^verbatim>\<open>free\<close> distinct slots: the slots of the page that are not
  live.
\<close>

definition page_inv :: "nat \<Rightarrow> nat \<Rightarrow> memory \<Rightarrow> addr list \<Rightarrow> addr \<Rightarrow> Page \<Rightarrow> bool" where
  "page_inv PS sa m live p pg =
     (pg_total pg = of_nat (length (slots_of PS sa p)) \<and>
      (\<exists>fl. chain m (pg_header pg) fl \<and> length fl = unat (pg_free pg) \<and> distinct fl \<and>
            set fl = set (slots_of PS sa p) - set live))"

definition InvG :: "nat \<Rightarrow> world \<Rightarrow> addr list \<Rightarrow> bool" where
  "InvG PS w live =
     (slotAlignment (pa w) = AlignUp (slotSize (pa w)) ALLOC_ALIGNMENT \<and>
      slotAlignment (pa w) \<noteq> 0 \<and>
      pool_ok PS (pool w) \<and>
      dom (pages w) = set (held (pool w)) \<and>
      totalPages (pa w) = of_nat (length (held (pool w))) \<and>
      list_inv w \<and>
      (\<forall>p pg. pages w p = Some pg \<longrightarrow>
         page_inv PS (unat (slotAlignment (pa w))) (mem w) live p pg) \<and>
      distinct live \<and>
      set live \<subseteq> (\<Union>p \<in> dom (pages w). set (slots_of PS (unat (slotAlignment (pa w))) p)))"

definition no_idle_except :: "world \<Rightarrow> addr \<Rightarrow> bool" where
  "no_idle_except w h = (\<forall>p pg. pages w p = Some pg \<longrightarrow> p \<noteq> h \<longrightarrow> pg_free pg \<noteq> pg_total pg)"

definition no_idle :: "world \<Rightarrow> bool" where
  "no_idle w = (\<forall>p pg. pages w p = Some pg \<longrightarrow> pg_free pg \<noteq> pg_total pg)"

definition Inv :: "nat \<Rightarrow> world \<Rightarrow> addr list \<Rightarrow> bool" where
  "Inv PS w live = (InvG PS w live \<and> no_idle w)"

text \<open>A memory whose bytes are not zero, to start the example runs from.\<close>

definition filled_mem :: memory where
  "filled_mem = (\<lambda>_. 255)"

section \<open>Properties\<close>

subsection \<open>Constants and alignment arithmetic\<close>

lemma Init_default: "Init PageAllocator_default sz = PageAllocator_new sz"
  by (simp add: Init_def PageAllocator_default_def PageAllocator_new_def)

lemma offset_eq: "offset = 32"
  by (simp add: offset_def AlignUp_def ALLOC_ALIGNMENT_def LOG_ALLOC_ALIGNMENT_def sizeof_Page_def)

lemma AA: "(ALLOC_ALIGNMENT :: 'a::len word) = 8"
  by (simp add: ALLOC_ALIGNMENT_def LOG_ALLOC_ALIGNMENT_def)

lemma and_not_7: "(y::16 word) AND NOT 7 = push_bit 3 (drop_bit 3 y)"
proof -
  have "(7::16 word) = mask 3" by (simp add: mask_eq_exp_minus_1)
  then show ?thesis
    by (simp add: bit_eq_iff bit_simps) (auto simp: bit_simps)
qed

lemma unat_and_not_7: "unat ((y::16 word) AND NOT 7) = unat y div 8 * 8"
proof -
  have b: "unat y < 65536" using unsigned_less[of y] by simp
  have "unat (y AND NOT 7) = unat (push_bit 3 (drop_bit 3 y))"
    by (simp only: and_not_7)
  also have "\<dots> = take_bit 16 (push_bit 3 (drop_bit 3 (unat y)))"
    by (simp only: unsigned_push_bit_eq unat_drop_bit_eq) simp
  also have "\<dots> = (unat y div 8 * 8) mod 65536"
    by (simp add: push_bit_eq_mult drop_bit_eq_div take_bit_eq_mod)
  also have "\<dots> = unat y div 8 * 8" using b by simp
  finally show ?thesis .
qed

lemma unat_AlignUp:
  "unat (AlignUp (x::16 word) ALLOC_ALIGNMENT) = ((unat x + 7) mod 65536) div 8 * 8"
proof -
  have "AlignUp x ALLOC_ALIGNMENT = (x + 7) AND NOT 7"
    by (simp add: AlignUp_def AA)
  then have "unat (AlignUp x ALLOC_ALIGNMENT) = unat (x + 7) div 8 * 8"
    by (simp only: unat_and_not_7)
  then show ?thesis by (simp add: unat_word_ariths)
qed

lemma AlignUp_dvd: "8 dvd unat (AlignUp (x::16 word) ALLOC_ALIGNMENT)"
  by (simp add: unat_AlignUp)

lemma AlignUp_ge:
  assumes nz: "AlignUp (x::16 word) ALLOC_ALIGNMENT \<noteq> 0"
  shows "unat x \<le> unat (AlignUp x ALLOC_ALIGNMENT)"
proof -
  have b: "unat x < 65536" using unsigned_less[of x] by simp
  show ?thesis
  proof (cases "unat x + 7 < 65536")
    case True
    then show ?thesis by (simp add: unat_AlignUp)
  next
    case False
    then have "(unat x + 7) mod 65536 = unat x + 7 - 65536" using b
      by (simp add: mod_if)
    then have "unat (AlignUp x ALLOC_ALIGNMENT) = 0" using b by (simp add: unat_AlignUp)
    then show ?thesis using nz by (simp add: unat_eq_0)
  qed
qed

lemma sa_ge8:
  assumes "sa = AlignUp (sz::16 word) ALLOC_ALIGNMENT" "sa \<noteq> 0"
  shows "8 \<le> unat sa"
proof -
  have "8 dvd unat sa" using assms AlignUp_dvd by simp
  moreover have "unat sa \<noteq> 0" using assms by (simp add: unat_eq_0)
  ultimately show ?thesis by (auto elim!: dvdE)
qed

lemma slot_count_eq:
  assumes "page_size_ok PS"
  shows "slot_count PS sa = (PS - offset) div unat sa"
proof -
  from assms have "PS + 2 ^ 64 - offset = (PS - offset) + 2 ^ 64" and "PS - offset < 2 ^ 64"
    by (auto simp add: page_size_ok_def offset_eq)
  then have "(PS + 2 ^ 64 - offset) mod 2 ^ 64 = PS - offset"
    by (simp only: mod_add_self2 mod_less)
  then show ?thesis by (simp only: slot_count_def)
qed

lemma slot_count_less:
  assumes "page_size_ok PS" "8 \<le> unat sa"
  shows "slot_count PS sa < 65536"
proof -
  have "(PS - offset) div unat sa \<le> (PS - offset) div 8"
    using assms(2) by (intro div_le_mono2) auto
  also have "\<dots> < 65536" using assms(1) by (simp add: page_size_ok_def offset_eq) arith
  finally show ?thesis using assms by (simp add: slot_count_eq)
qed

lemma fr_ge1: "n < 65536 \<Longrightarrow> ((of_nat n :: 16 word) \<ge> 1) = (1 \<le> n)"
  by (simp add: word_le_nat_alt unat_of_nat)

lemma unat_fr: "n < 65536 \<Longrightarrow> unat (of_nat n :: 16 word) = n"
  by (simp add: unat_of_nat)

subsection \<open>How the operations can fail\<close>

lemma then_do_Inl: "then_do r f = Inl e \<Longrightarrow> r = Inl e \<or> (\<exists>x. r = Inr x \<and> f x = Inl e)"
  by (auto simp: then_do_def split: sum.splits)

lemma then_do_Inr: "then_do r f = Inr y \<Longrightarrow> (\<exists>x. r = Inr x \<and> f x = Inr y)"
  by (auto simp: then_do_def split: sum.splits)

lemma modify_page_err: "modify_page pgs a f = Inl e \<Longrightarrow> ptr_err e"
  by (auto simp: modify_page_def ptr_err_def split: if_splits option.splits)

lemma read_page_err: "read_page pgs a = Inl e \<Longrightarrow> ptr_err e"
  by (auto simp: read_page_def ptr_err_def split: if_splits option.splits)


lemma AddToList_err: "AddToList h p pgs = Inl e \<Longrightarrow> ptr_err e"
  unfolding AddToList_def
  by (auto dest!: then_do_Inl intro: read_page_err split: if_splits prod.splits)
     (erule modify_page_err)+






subsection \<open>Memory, free lists and the loop of InitPage\<close>

lemma byte_sum: "(\<Sum>i\<leftarrow>[0..<n]. ((v::nat) div 256 ^ i mod 256) * 256 ^ i) = v mod 256 ^ n"
proof (induction n)
  case 0 show ?case by simp
next
  case (Suc n)
  have "v mod (256 ^ n * 256) = 256 ^ n * (v div 256 ^ n mod 256) + v mod 256 ^ n"
    by (rule mod_mult2_eq)
  with Suc show ?case by (simp add: mult.commute)
qed

lemma load_store_same: "load_ptr (store_ptr m a v) a = v mod 2 ^ 64"
proof -
  have "load_ptr (store_ptr m a v) a = (\<Sum>i\<leftarrow>[0..<8]. (v div 256 ^ i mod 256) * 256 ^ i)"
    unfolding load_ptr_def store_ptr_def
    by (rule arg_cong[where f=sum_list], rule map_cong) (auto simp: unat_of_nat)
  then show ?thesis by (simp only: byte_sum) simp
qed

lemma load_cong: "(\<And>i. i < 8 \<Longrightarrow> m' (a + i) = m (a + i)) \<Longrightarrow> load_ptr m' a = load_ptr m a"
  unfolding load_ptr_def
  by (rule arg_cong[where f=sum_list], rule map_cong) auto

lemma store_other: "x < a \<or> a + 8 \<le> x \<Longrightarrow> store_ptr m a v x = m x"
  by (auto simp: store_ptr_def)

lemma chain_cong:
  "(\<And>x i. x \<in> set xs \<Longrightarrow> i < 8 \<Longrightarrow> m' (x + i) = m (x + i)) \<Longrightarrow> chain m' h xs = chain m h xs"
proof (induction xs arbitrary: h)
  case Nil show ?case by simp
next
  case (Cons x xs)
  have "load_ptr m' x = load_ptr m x" by (rule load_cong) (simp add: Cons.prems)
  moreover have "chain m' (load_ptr m x) xs = chain m (load_ptr m x) xs"
    by (rule Cons.IH) (simp add: Cons.prems)
  ultimately show ?case by simp
qed

lemma upt_shift: "0 < n \<Longrightarrow> map f [0..<n] = f 0 # map (\<lambda>k. f (Suc k)) [0..<n - 1]"
  by (cases n) (simp_all add: upt_conv_Cons map_Suc_upt[symmetric] del: upt_Suc)

lemma link_slots_chain:
  assumes sa: "8 \<le> sa" and e: "e + 1 < 2 ^ 64"
  shows "block + sa \<le> e + 1 \<Longrightarrow>
     \<exists>m'. link_slots e sa block block m = Some m'
        \<and> chain m' block (map (\<lambda>k. block + k * sa) [0..<(e + 1 - block) div sa])
        \<and> (\<forall>x. x < block \<or> e < x \<longrightarrow> m' x = m x)"
proof (induction "e + 1 - block" arbitrary: block m rule: less_induct)
  case less
  let ?n = "(e + 1 - block) div sa"
  let ?b' = "block + sa"
  have "sa div sa \<le> ?n" using less.prems by (intro div_le_mono) auto
  then have n1: "1 \<le> ?n" using sa by simp
  show ?case
  proof (cases "?b' + sa - 1 > e")
    case True
    then have "?n = 1" using less.prems sa by (intro div_nat_eqI) auto
    moreover have "link_slots e sa block block m = Some m"
      using True by (subst link_slots.simps) (simp add: Let_def)
    ultimately show ?thesis by simp
  next
    case False
    then have fit: "?b' + sa \<le> e + 1" using sa by simp
    let ?m1 = "store_ptr m block ?b'"
    have dec: "e + 1 - ?b' < e + 1 - block" using sa less.prems by simp
    from less.hyps[OF dec fit, of ?m1]
    obtain m' where m': "link_slots e sa ?b' ?b' ?m1 = Some m'"
       "chain m' ?b' (map (\<lambda>k. ?b' + k * sa) [0..<(e + 1 - ?b') div sa])"
       "\<forall>x. x < ?b' \<or> e < x \<longrightarrow> m' x = ?m1 x" by blast
    have ls: "link_slots e sa block block m = Some m'"
      using False m'(1) by (subst link_slots.simps) (simp add: Let_def)
    have "load_ptr m' block = load_ptr ?m1 block"
      using m'(3) sa by (intro load_cong) simp
    also have "\<dots> = ?b'" using fit e by (simp add: load_store_same)
    finally have ld: "load_ptr m' block = ?b'" .
    have "?n = Suc ((e + 1 - block - sa) div sa)"
      using less.prems sa by (intro le_div_geq) auto
    then have nn: "(e + 1 - ?b') div sa = ?n - 1" by (simp add: diff_diff_eq)
    have "map (\<lambda>k. block + k * sa) [0..<?n] = block # map (\<lambda>k. ?b' + k * sa) [0..<?n - 1]"
      using n1 by (subst upt_shift) (simp_all add: add.assoc)
    then have ch: "chain m' block (map (\<lambda>k. block + k * sa) [0..<?n])"
      using m'(2) ld nn by simp
    have fr: "\<forall>x. x < block \<or> e < x \<longrightarrow> m' x = m x"
    proof (intro allI impI)
      fix x assume x: "x < block \<or> e < x"
      then have "m' x = ?m1 x" using m'(3) by auto
      also have "\<dots> = m x" using x fit sa by (intro store_other) auto
      finally show "m' x = m x" .
    qed
    show ?thesis using ls ch fr by blast
  qed
qed

subsection \<open>The doubly-linked list of pages\<close>

lemma dseg_cong:
  "(\<And>x. x \<in> set xs \<Longrightarrow> map_option links (pgs' x) = map_option links (pgs x)) \<Longrightarrow>
   dseg pgs' prv h xs t = dseg pgs prv h xs t"
proof (induction xs arbitrary: prv h)
  case Nil show ?case by simp
next
  case (Cons x xs)
  have l: "map_option links (pgs' x) = map_option links (pgs x)" by (simp add: Cons.prems)
  have r: "\<And>q n. dseg pgs' q n xs t = dseg pgs q n xs t" by (rule Cons.IH) (simp add: Cons.prems)
  show ?case using l r
    by (cases "pgs x"; cases "pgs' x") (auto simp: links_def)
qed

lemma dseg_append:
  "dseg pgs prv h (ys @ zs) t = (\<exists>mid. dseg pgs prv h ys mid \<and> dseg pgs (last (prv # ys)) mid zs t)"
  by (induction ys arbitrary: prv h) (auto split: option.splits)

lemma dseg_snoc:
  "dseg pgs prv h (ys @ [y]) t =
     (dseg pgs prv h ys y \<and> y \<noteq> 0 \<and> (\<exists>P. pgs y = Some P \<and> pg_prev P = last (prv # ys) \<and> pg_next P = t))"
  by (auto simp: dseg_append split: option.splits)

lemma dseg_hd_in: "dseg pgs prv h ys t \<Longrightarrow> ys \<noteq> [] \<Longrightarrow> h \<in> set ys"
  by (cases ys) auto

lemma AddToList_ok:
  assumes "dlist pgs h xs" "distinct xs" "p \<notin> set xs" "pgs p = Some P" "pg_prev P = 0" "p \<noteq> 0"
  shows "\<exists>pgs'. AddToList h p pgs = Inr (p, pgs') \<and> dlist pgs' p (p # xs)
           \<and> (\<forall>q. map_option core (pgs' q) = map_option core (pgs q))
           \<and> (\<forall>q. q \<notin> set (p # xs) \<longrightarrow> pgs' q = pgs q)"
proof (cases xs)
  case Nil
  then have "h = 0" using assms(1) by (simp add: dlist_def)
  then show ?thesis using assms Nil
    by (simp add: AddToList_def then_do_def modify_page_def dlist_def core_def)
next
  case (Cons x xs')
  then obtain X where X: "h = x" "x \<noteq> 0" "pgs x = Some X" "pg_prev X = 0" "dseg pgs x (pg_next X) xs' 0"
    using assms(1) by (auto simp: dlist_def split: option.splits)
  have ne: "p \<noteq> x" "x \<notin> set xs'" "p \<notin> set xs'" using assms(2,3) Cons by auto
  let ?pgs' = "pgs(x \<mapsto> X\<lparr>pg_prev := p\<rparr>, p \<mapsto> P\<lparr>pg_next := x\<rparr>)"
  have a: "AddToList h p pgs = Inr (p, ?pgs')"
    using X assms ne by (simp add: AddToList_def then_do_def modify_page_def)
  have "dseg ?pgs' x (pg_next X) xs' 0 = dseg pgs x (pg_next X) xs' 0"
    using ne by (intro dseg_cong) auto
  then have b: "dlist ?pgs' p (p # xs)"
    using X assms ne Cons by (simp add: dlist_def)
  have c: "\<forall>q. map_option core (?pgs' q) = map_option core (pgs q)"
    using X assms by (auto simp: core_def)
  have d: "\<forall>q. q \<notin> set (p # xs) \<longrightarrow> ?pgs' q = pgs q" using Cons by auto
  show ?thesis using a b c d by blast
qed

lemma RemoveFromList_ok:
  assumes "dlist pgs h xs" "distinct xs" "p \<in> set xs"
  shows "\<exists>pgs' h'. RemoveFromList h p pgs = Inr (h', pgs') \<and> dlist pgs' h' (remove1 p xs)
           \<and> (\<forall>q. map_option core (pgs' q) = map_option core (pgs q))
           \<and> (\<forall>q. q \<notin> set xs \<longrightarrow> pgs' q = pgs q)
           \<and> (\<exists>P'. pgs' p = Some P' \<and> pg_prev P' = 0 \<and> pg_next P' = 0)"
proof -
  from assms(3) obtain ys zs where xs: "xs = ys @ p # zs" by (auto simp: in_set_conv_decomp)
  have pn: "p \<notin> set ys" "p \<notin> set zs" "distinct ys" "distinct zs" "set ys \<inter> set zs = {}"
    using assms(2) xs by auto
  have rm: "remove1 p xs = ys @ zs" using xs pn by (simp add: remove1_append)
  from assms(1) have seg: "dseg pgs 0 h ys p" "dseg pgs (last (0 # ys)) p (p # zs) 0"
    unfolding dlist_def xs dseg_append by auto
  then obtain P where P: "p \<noteq> 0" "pgs p = Some P" "pg_prev P = last (0 # ys)" "dseg pgs p (pg_next P) zs 0"
    by (auto split: option.splits)
  let ?P' = "P\<lparr>pg_prev := 0, pg_next := 0\<rparr>"
  have tail: "\<exists>pgsz. (if pg_next P \<noteq> 0 then modify_page pgsa (pg_next P) (\<lambda>q. q\<lparr>pg_prev := v\<rparr>) else Inr pgsa) = Inr pgsz
       \<and> dseg (pgsz(p \<mapsto> ?P')) v (pg_next P) zs 0
       \<and> (\<forall>q. map_option core (pgsz q) = map_option core (pgsa q))
       \<and> (\<forall>q. q \<notin> set zs \<longrightarrow> pgsz q = pgsa q)"
    if agree: "\<And>q. q \<in> set zs \<Longrightarrow> pgsa q = pgs q" for pgsa v
  proof (cases zs)
    case Nil
    then show ?thesis using P by simp
  next
    case (Cons z zs')
    then obtain Z where Z: "pg_next P = z" "z \<noteq> 0" "pgs z = Some Z" "pg_prev Z = p" "dseg pgs z (pg_next Z) zs' 0"
      using P(4) by (auto split: option.splits)
    have zn: "z \<noteq> p" "z \<notin> set zs'" "p \<notin> set zs'" using pn Cons by auto
    let ?pz = "pgsa(z \<mapsto> Z\<lparr>pg_prev := v\<rparr>)"
    have "dseg (?pz(p \<mapsto> ?P')) z (pg_next Z) zs' 0 = dseg pgs z (pg_next Z) zs' 0"
      using zn agree Cons by (intro dseg_cong) auto
    then have "dseg (?pz(p \<mapsto> ?P')) v (pg_next P) zs 0"
      using Z zn Cons by simp
    moreover have "(if pg_next P \<noteq> 0 then modify_page pgsa (pg_next P) (\<lambda>q. q\<lparr>pg_prev := v\<rparr>) else Inr pgsa) = Inr ?pz"
      using Z agree[of z] Cons by (simp add: modify_page_def)
    moreover have "\<forall>q. map_option core (?pz q) = map_option core (pgsa q)"
      using Z agree[of z] Cons by (auto simp: core_def)
    moreover have "\<forall>q. q \<notin> set zs \<longrightarrow> ?pz q = pgsa q" using Cons by auto
    ultimately show ?thesis by blast
  qed
  show ?thesis
  proof (cases ys rule: rev_cases)
    case Nil
    then have h: "h = p" "pg_prev P = 0" using seg P by auto
    from tail[of pgs 0] obtain pgsz where z: 
      "(if pg_next P \<noteq> 0 then modify_page pgs (pg_next P) (\<lambda>q. q\<lparr>pg_prev := 0\<rparr>) else Inr pgs) = Inr pgsz"
      "dseg (pgsz(p \<mapsto> ?P')) 0 (pg_next P) zs 0"
      "\<forall>q. map_option core (pgsz q) = map_option core (pgs q)"
      "\<forall>q. q \<notin> set zs \<longrightarrow> pgsz q = pgs q" by blast
    have pz: "pgsz p = Some P" using z(4) pn P by simp
    have "RemoveFromList h p pgs = Inr (pg_next P, pgsz(p \<mapsto> ?P'))"
      using h P z(1) pz by (simp add: RemoveFromList_def then_do_def read_page_def modify_page_def Let_def)
    moreover have "dlist (pgsz(p \<mapsto> ?P')) (pg_next P) (remove1 p xs)"
      using z(2) rm Nil by (simp add: dlist_def)
    moreover have "\<forall>q. map_option core ((pgsz(p \<mapsto> ?P')) q) = map_option core (pgs q)"
      using z(3) P by (auto simp: core_def)
    moreover have "\<forall>q. q \<notin> set xs \<longrightarrow> (pgsz(p \<mapsto> ?P')) q = pgs q"
      using z(4) xs by auto
    ultimately show ?thesis by auto
  next
    case (snoc ys' y)
    then obtain Y where Y: "dseg pgs 0 h ys' y" "y \<noteq> 0" "pgs y = Some Y" "pg_prev Y = last (0 # ys')" "pg_next Y = p"
      using seg(1) by (auto simp: dseg_snoc)
    have yn: "y \<noteq> p" "y \<notin> set zs" "y \<notin> set ys'" "p \<notin> set ys'" "set ys' \<inter> set zs = {}"
      using pn snoc by auto
    have hp: "h \<noteq> p" using dseg_hd_in[OF seg(1)] snoc pn by auto
    have pp: "pg_prev P = y" using P snoc by simp
    let ?py = "pgs(y \<mapsto> Y\<lparr>pg_next := pg_next P\<rparr>)"
    have ag: "\<And>q. q \<in> set zs \<Longrightarrow> ?py q = pgs q" using yn by auto
    from tail[of ?py y, OF ag] obtain pgsz where z:
      "(if pg_next P \<noteq> 0 then modify_page ?py (pg_next P) (\<lambda>q. q\<lparr>pg_prev := y\<rparr>) else Inr ?py) = Inr pgsz"
      "dseg (pgsz(p \<mapsto> ?P')) y (pg_next P) zs 0"
      "\<forall>q. map_option core (pgsz q) = map_option core (?py q)"
      "\<forall>q. q \<notin> set zs \<longrightarrow> pgsz q = ?py q" by blast
    have pz: "pgsz p = Some P" "pgsz y = Some (Y\<lparr>pg_next := pg_next P\<rparr>)" using z(4) pn P yn by simp_all
    have r: "RemoveFromList h p pgs = Inr (h, pgsz(p \<mapsto> ?P'))"
    proof -
      have 1: "read_page pgs p = Inr P" using P(1,2) by (simp add: read_page_def)
      have 2: "modify_page pgs y (\<lambda>q. q\<lparr>pg_next := pg_next P\<rparr>) = Inr ?py"
        using Y(2,3) by (simp add: modify_page_def)
      have 3: "modify_page pgsz p (\<lambda>q. q\<lparr>pg_prev := 0, pg_next := 0\<rparr>) = Inr (pgsz(p \<mapsto> ?P'))"
        using P(1) pz(1) by (simp add: modify_page_def)
      have 4: "(if pg_prev P \<noteq> 0 then modify_page pgs (pg_prev P) (\<lambda>q. q\<lparr>pg_next := pg_next P\<rparr>) else Inr pgs) = Inr ?py"
        using Y(2) pp 2 by simp
      have 5: "(if pg_next P \<noteq> 0 then modify_page ?py (pg_next P) (\<lambda>q. q\<lparr>pg_prev := pg_prev P\<rparr>) else Inr ?py) = Inr pgsz"
        unfolding pp by (rule z(1))
      show ?thesis
        unfolding RemoveFromList_def Let_def 1 using hp
        by (simp only: then_do_def 4 5 sum.case if_False prod.case) (simp add: 3)
    qed
    have "dseg (pgsz(p \<mapsto> ?P')) 0 h ys' y = dseg pgs 0 h ys' y"
      using yn z(4) by (intro dseg_cong) auto
    then have "dseg (pgsz(p \<mapsto> ?P')) 0 h (ys' @ [y]) (pg_next P)"
      using Y pz yn by (simp add: dseg_snoc)
    then have s1: "dseg (pgsz(p \<mapsto> ?P')) 0 h ys (pg_next P)" by (simp only: snoc)
    have l: "last (0 # ys) = y" by (simp add: snoc)
    have "dseg (pgsz(p \<mapsto> ?P')) 0 h (ys @ zs) 0"
      by (subst dseg_append, rule exI[of _ "pg_next P"]) (simp only: s1 l z(2))
    then have d: "dlist (pgsz(p \<mapsto> ?P')) h (remove1 p xs)"
      by (simp only: rm dlist_def)
    have c: "\<forall>q. map_option core ((pgsz(p \<mapsto> ?P')) q) = map_option core (pgs q)"
      using z(3) P Y by (auto simp: core_def)
    have f: "\<forall>q. q \<notin> set xs \<longrightarrow> (pgsz(p \<mapsto> ?P')) q = pgs q"
      using z(4) xs snoc by auto
    show ?thesis using r d c f by auto
  qed
qed

subsection \<open>Where the slots lie\<close>

lemma slots_of_mem:
  "x \<in> set (slots_of PS sa p) \<longleftrightarrow> (\<exists>k < (PS - offset) div sa. x = p + offset + k * sa)"
  by (auto simp: slots_of_def)

lemma slot_bounds:
  assumes "x \<in> set (slots_of PS sa p)"
  shows "p + offset \<le> x" and "x + sa \<le> p + PS" and "x \<noteq> 0"
proof -
  from assms obtain k where k: "k < (PS - offset) div sa" "x = p + offset + k * sa"
    by (auto simp: slots_of_mem)
  show "p + offset \<le> x" using k by simp
  show "x \<noteq> 0" using k by (simp add: offset_eq)
  have "Suc k * sa \<le> ((PS - offset) div sa) * sa" using k(1) by (intro mult_le_mono1) simp
  also have "\<dots> \<le> PS - offset" by simp
  finally have "k * sa + sa \<le> PS - offset" by simp
  moreover have "offset \<le> PS" using k(1) by (cases "offset \<le> PS") auto
  ultimately show "x + sa \<le> p + PS" using k(2) by simp
qed

lemma slot_page:
  assumes "x \<in> set (slots_of PS sa p)" "PS dvd p" "0 < sa"
  shows "AlignDown x PS = p"
proof -
  from slot_bounds[OF assms(1)] assms(3) have b: "p \<le> x" "x < p + PS" by auto
  from assms(2) obtain j where j: "p = PS * j" by (auto elim: dvdE)
  have "x = (x - p) + j * PS" using b j by (simp add: mult.commute)
  then have "x mod PS = (x - p) mod PS" by (metis mod_mult_self1)
  also have "\<dots> = x - p" using b by simp
  finally show ?thesis using b by (simp add: AlignDown_def)
qed

lemma slot_apart_same:
  assumes "x \<in> set (slots_of PS sa p)" "y \<in> set (slots_of PS sa p)" "x \<noteq> y"
  shows "x + sa \<le> y \<or> y + sa \<le> x"
proof -
  from assms obtain k l where k: "x = p + offset + k * sa" "y = p + offset + l * sa"
    by (auto simp: slots_of_mem)
  with assms(3) have "k \<noteq> l" by auto
  then consider "Suc k \<le> l" | "Suc l \<le> k" by linarith
  then show ?thesis
  proof cases
    case 1 then have "Suc k * sa \<le> l * sa" by (intro mult_le_mono1)
    then show ?thesis using k by simp
  next
    case 2 then have "Suc l * sa \<le> k * sa" by (intro mult_le_mono1)
    then show ?thesis using k by simp
  qed
qed

lemma page_apart:
  assumes "PS dvd (p::nat)" "PS dvd q" "p < q"
  shows "p + PS \<le> q"
proof -
  from assms obtain i j where "p = PS * i" "q = PS * j" by (auto elim!: dvdE)
  moreover with assms(3) have "Suc i \<le> j" by (cases "PS = 0") auto
  then have "PS * Suc i \<le> PS * j" by (intro mult_le_mono2)
  ultimately show ?thesis by simp
qed

lemma slot_apart:
  assumes "x \<in> set (slots_of PS sa p)" "y \<in> set (slots_of PS sa q)" "x \<noteq> y"
    "PS dvd p" "PS dvd q"
  shows "x + sa \<le> y \<or> y + sa \<le> x"
proof -
  consider "p = q" | "p < q" | "q < p" by linarith
  then show ?thesis
  proof cases
    case 1 then show ?thesis using slot_apart_same assms by simp
  next
    case 2
    from page_apart[OF assms(4,5) 2] slot_bounds[OF assms(1)] slot_bounds[OF assms(2)]
    show ?thesis by simp
  next
    case 3
    from page_apart[OF assms(5,4) 3] slot_bounds[OF assms(1)] slot_bounds[OF assms(2)]
    show ?thesis by simp
  qed
qed

lemma slots_disjoint:
  assumes "PS dvd p" "PS dvd q" "p \<noteq> q" "0 < sa"
  shows "set (slots_of PS sa p) \<inter> set (slots_of PS sa q) = {}"
  using slot_page[of _ PS sa p] slot_page[of _ PS sa q] assms by blast

lemma slots_distinct: "0 < sa \<Longrightarrow> distinct (slots_of PS sa p)"
  by (auto simp: slots_of_def distinct_map inj_on_def)

lemma slots_length: "length (slots_of PS sa p) = (PS - offset) div sa"
  by (simp add: slots_of_def)

lemma slot_aligned:
  assumes "x \<in> set (slots_of PS sa p)" "8 dvd p" "8 dvd sa"
  shows "8 dvd x"
  using assms by (auto simp: slots_of_mem offset_eq)

subsection \<open>The operations keep the invariant\<close>

lemma InitPage_ok:
  assumes ps: "page_size_ok PS" and sa: "sa = AlignUp sz ALLOC_ALIGNMENT" "sa \<noteq> 0"
    and c: "c + PS < 2 ^ 64"
    and r: "InitPage PS sa c pgs m = Inr (pgs', m')"
  defines "n \<equiv> (PS - offset) div unat sa"
  shows "pgs' = pgs(c \<mapsto> \<lparr>pg_header = c + offset, pg_prev = 0, pg_next = 0,
                          pg_total = of_nat n, pg_free = of_nat n\<rparr>)"
    and "1 \<le> n" and "n < 65536"
    and "chain m' (c + offset) (slots_of PS (unat sa) c)"
    and "\<forall>x. x < c + offset \<or> c + PS \<le> x \<longrightarrow> m' x = m x"
proof -
  have sc: "slot_count PS sa = n" using ps by (simp add: slot_count_eq n_def)
  have s8: "8 \<le> unat sa" using sa by (rule sa_ge8)
  show n65: "n < 65536" using slot_count_less[OF ps s8] sc by simp
  from r have c0: "c \<noteq> 0" by (auto simp: InitPage_def split: if_splits)
  from r sa(2) c0 have ge: "(of_nat n :: 16 word) \<ge> 1"
    by (auto simp: InitPage_def sc Let_def split: if_splits)
  then show n1: "1 \<le> n" using n65 by (simp add: fr_ge1)
  from r sa(2) c0 ge have ls: "link_slots (c + PS - 1) (unat sa) (c + offset) (c + offset) m = Some m'"
    and pg: "pgs' = pgs(c \<mapsto> \<lparr>pg_header = c + offset, pg_prev = 0, pg_next = 0,
                          pg_total = of_nat n, pg_free = of_nat n\<rparr>)"
    by (auto simp: InitPage_def sc Let_def split: if_splits option.splits)
  show "pgs' = pgs(c \<mapsto> \<lparr>pg_header = c + offset, pg_prev = 0, pg_next = 0,
                          pg_total = of_nat n, pg_free = of_nat n\<rparr>)" by (rule pg)
  have off: "offset < PS" using ps by (simp add: page_size_ok_def)
  have "unat sa * 1 \<le> unat sa * n" using n1 by (intro mult_le_mono2)
  also have "\<dots> \<le> PS - offset" by (simp add: n_def)
  finally have fit: "c + offset + unat sa \<le> (c + PS - 1) + 1" using off by simp
  have e: "(c + PS - 1) + 1 < 2 ^ 64" using c off by simp
  from link_slots_chain[OF s8 e fit, of m] ls
  have ch: "chain m' (c + offset) (map (\<lambda>k. c + offset + k * unat sa) [0..<(c + PS - 1 + 1 - (c + offset)) div unat sa])"
    and fr: "\<forall>x. x < c + offset \<or> c + PS - 1 < x \<longrightarrow> m' x = m x" by auto
  have "c + PS - 1 + 1 - (c + offset) = PS - offset" using off by simp
  then show "chain m' (c + offset) (slots_of PS (unat sa) c)" using ch by (simp add: slots_of_def)
  show "\<forall>x. x < c + offset \<or> c + PS \<le> x \<longrightarrow> m' x = m x" using fr off by auto
qed

lemma page_inv_frame:
  assumes "page_inv PS sa m live q pg"
    and "\<And>x i. x \<in> set (slots_of PS sa q) \<Longrightarrow> x \<notin> set live \<Longrightarrow> i < 8 \<Longrightarrow> m' (x + i) = m (x + i)"
  shows "page_inv PS sa m' live q pg"
proof -
  from assms(1) obtain fl where fl: "pg_total pg = of_nat (length (slots_of PS sa q))"
    "chain m (pg_header pg) fl" "length fl = unat (pg_free pg)" "distinct fl"
    "set fl = set (slots_of PS sa q) - set live" by (auto simp: page_inv_def)
  have "chain m' (pg_header pg) fl = chain m (pg_header pg) fl"
    using fl(5) assms(2) by (intro chain_cong) auto
  then show ?thesis using fl by (auto simp: page_inv_def)
qed

lemma page_inv_core:
  "core pg' = core pg \<Longrightarrow> page_inv PS sa m live q pg' = page_inv PS sa m live q pg"
  by (simp add: page_inv_def core_def)

lemma pool_ok_held:
  "pool_ok PS pl \<Longrightarrow> q \<in> set (held pl) \<Longrightarrow> q \<noteq> 0 \<and> PS dvd q \<and> q + PS < 2 ^ 64"
  by (auto simp: pool_ok_def)

lemma InvGD:
  assumes "InvG PS w live"
  shows "slotAlignment (pa w) = AlignUp (slotSize (pa w)) ALLOC_ALIGNMENT"
    and "slotAlignment (pa w) \<noteq> 0"
    and "pool_ok PS (pool w)"
    and "dom (pages w) = set (held (pool w))"
    and "totalPages (pa w) = of_nat (length (held (pool w)))"
    and "list_inv w"
    and "\<And>p pg. pages w p = Some pg \<Longrightarrow> page_inv PS (unat (slotAlignment (pa w))) (mem w) live p pg"
    and "distinct live"
    and "set live \<subseteq> (\<Union>p \<in> dom (pages w). set (slots_of PS (unat (slotAlignment (pa w))) p))"
  using assms unfolding InvG_def by blast+

lemma InvGI:
  assumes "slotAlignment (pa w) = AlignUp (slotSize (pa w)) ALLOC_ALIGNMENT"
    and "slotAlignment (pa w) \<noteq> 0"
    and "pool_ok PS (pool w)"
    and "dom (pages w) = set (held (pool w))"
    and "totalPages (pa w) = of_nat (length (held (pool w)))"
    and "list_inv w"
    and "\<And>p pg. pages w p = Some pg \<Longrightarrow> page_inv PS (unat (slotAlignment (pa w))) (mem w) live p pg"
    and "distinct live"
    and "set live \<subseteq> (\<Union>p \<in> dom (pages w). set (slots_of PS (unat (slotAlignment (pa w))) p))"
  shows "InvG PS w live"
  unfolding InvG_def using assms by blast

lemma new_page_ok:
  assumes ps: "page_size_ok PS" and inv: "Inv PS w live"
    and r: "Allocate_new_page PS w = Inr w1"
  shows "InvG PS w1 live \<and> nonFull (pa w1) \<noteq> 0 \<and> no_idle_except w1 (nonFull (pa w1))
         \<and> set (avail (pool w1) @ held (pool w1)) = set (avail (pool w) @ held (pool w))"
proof (cases "nonFull (pa w) = 0")
  case False
  then have "w1 = w" using r by (simp add: Allocate_new_page_def)
  then show ?thesis using inv False by (simp add: Inv_def no_idle_def no_idle_except_def)
next
  case True
  let ?sa = "slotAlignment (pa w)"
  let ?pgs = "pages w"
  from inv have invg: "InvG PS w live" and ni: "no_idle w" by (simp_all add: Inv_def)
  from InvGD[OF invg] have cfg: "?sa = AlignUp (slotSize (pa w)) ALLOC_ALIGNMENT" "?sa \<noteq> 0"
    and pok: "pool_ok PS (pool w)"
    and dm: "dom ?pgs = set (held (pool w))"
    and tp: "totalPages (pa w) = of_nat (length (held (pool w)))"
    and li: "list_inv w"
    and pinv: "\<And>p pg. ?pgs p = Some pg \<Longrightarrow> page_inv PS (unat ?sa) (mem w) live p pg"
    and lv: "distinct live" "set live \<subseteq> (\<Union>p \<in> dom ?pgs. set (slots_of PS (unat ?sa) p))"
    by blast+
  have s8: "8 \<le> unat ?sa" using cfg by (rule sa_ge8)
  from li True have old: "\<And>p pg. ?pgs p = Some pg \<Longrightarrow> pg_free pg = 0 \<and> pg_prev pg = 0 \<and> pg_next pg = 0"
    unfolding list_inv_def dlist_def
    by (metis dseg.simps(2) empty_iff list.exhaust list.set(1))
  obtain c rest where av: "avail (pool w) = c # rest"
    using r True
    by (cases "avail (pool w)") (auto simp: Allocate_new_page_def GetPage_def InitPage_def then_do_def)
  let ?pl = "(pool w)\<lparr>avail := rest, held := c # held (pool w)\<rparr>"
  from r True av obtain pgs' m' where ip: "InitPage PS ?sa c ?pgs (mem w) = Inr (pgs', m')"
    and w1: "w1 = w\<lparr>pa := (pa w)\<lparr>nonFull := c, totalPages := totalPages (pa w) + 1\<rparr>,
                     pages := pgs', mem := m', pool := ?pl\<rparr>"
    by (auto simp: Allocate_new_page_def GetPage_def dest!: then_do_Inr)
  have cok: "c \<noteq> 0" "PS dvd c" "c + PS < 2 ^ 64" "c \<notin> set (held (pool w))"
    using pok av by (auto simp: pool_ok_def)
  define n where "n = (PS - offset) div unat ?sa"
  let ?P0 = "\<lparr>pg_header = c + offset, pg_prev = 0, pg_next = 0, pg_total = of_nat n, pg_free = (of_nat n :: 16 word)\<rparr>"
  from InitPage_ok[OF ps cfg cok(3) ip]
  have pg': "pgs' = ?pgs(c \<mapsto> ?P0)" and n1: "1 \<le> n" and n65: "n < 65536"
    and ch: "chain m' (c + offset) (slots_of PS (unat ?sa) c)"
    and fr: "\<forall>x. x < c + offset \<or> c + PS \<le> x \<longrightarrow> m' x = mem w x"
    by (simp_all add: n_def)
  have cnew: "?pgs c = None" using cok(4) dm by auto
  have fr0: "(of_nat n :: 16 word) \<noteq> 0" using n1 n65 unat_fr[of n] by auto
  \<comment> \<open>the pool\<close>
  have pok': "pool_ok PS ?pl" using pok av by (auto simp: pool_ok_def)
  have dm': "dom pgs' = set (held ?pl)" using dm pg' by auto
  have tp': "totalPages (pa w) + 1 = of_nat (length (held ?pl))" using tp by simp
  \<comment> \<open>the list\<close>
  have li': "list_inv w1"
    unfolding list_inv_def
  proof (intro exI[of _ "[c]"] conjI allI impI)
    show "dlist (pages w1) (nonFull (pa w1)) [c]" using cok w1 pg' by (simp add: dlist_def)
    show "distinct [c]" by simp
  next
    fix p pg assume a: "pages w1 p = Some pg"
    show "(p \<in> set [c]) = (pg_free pg \<noteq> 0)"
      using a w1 pg' fr0 old[of p pg] by (auto split: if_splits)
    assume "p \<notin> set [c]"
    then show "pg_prev pg = 0" "pg_next pg = 0" using a w1 pg' old[of p pg] by (auto split: if_splits)
  qed
  \<comment> \<open>the slots\<close>
  have disj: "set live \<inter> set (slots_of PS (unat ?sa) c) = {}"
  proof -
    { fix x assume x: "x \<in> set live" "x \<in> set (slots_of PS (unat ?sa) c)"
      from x(1) lv(2) obtain q where q: "q \<in> dom ?pgs" "x \<in> set (slots_of PS (unat ?sa) q)" by blast
      then have "q \<noteq> c" "PS dvd q" using cnew dm pool_ok_held[OF pok, of q] by auto
      moreover have "0 < unat ?sa" using s8 by simp
      ultimately have "set (slots_of PS (unat ?sa) q) \<inter> set (slots_of PS (unat ?sa) c) = {}"
        using cok(2) by (intro slots_disjoint) auto
      with q(2) x(2) have False by blast }
    then show ?thesis by auto
  qed
  have pc: "page_inv PS (unat ?sa) m' live c ?P0"
    unfolding page_inv_def
  proof (intro conjI exI[of _ "slots_of PS (unat ?sa) c"])
    show "pg_total ?P0 = of_nat (length (slots_of PS (unat ?sa) c))" by (simp add: slots_length n_def)
    show "chain m' (pg_header ?P0) (slots_of PS (unat ?sa) c)" using ch by simp
    show "length (slots_of PS (unat ?sa) c) = unat (pg_free ?P0)"
      using n65 by (simp add: slots_length n_def[symmetric] unat_fr)
    show "distinct (slots_of PS (unat ?sa) c)" using s8 by (intro slots_distinct) simp
    show "set (slots_of PS (unat ?sa) c) = set (slots_of PS (unat ?sa) c) - set live"
      using disj by auto
  qed
  have pq: "page_inv PS (unat ?sa) m' live q pg" if q: "?pgs q = Some pg" for q pg
  proof (rule page_inv_frame[OF pinv[OF q]])
    fix x i assume x: "x \<in> set (slots_of PS (unat ?sa) q)" and i: "i < (8::nat)"
    have qq: "q \<noteq> c" "PS dvd q" using q cnew dm pool_ok_held[OF pok, of q] by auto
    from slot_bounds[OF x] have b: "q + offset \<le> x" "x + unat ?sa \<le> q + PS" by auto
    consider "q < c" | "c < q" using qq by linarith
    then have "x + i < c + offset \<or> c + PS \<le> x + i"
    proof cases
      case 1 from page_apart[OF qq(2) cok(2) 1] b i s8 show ?thesis by simp
    next
      case 2 from page_apart[OF cok(2) qq(2) 2] b i s8 show ?thesis by simp
    qed
    then show "m' (x + i) = mem w (x + i)" using fr by blast
  qed
  have pinv': "\<And>p pg. pages w1 p = Some pg \<Longrightarrow> page_inv PS (unat (slotAlignment (pa w1))) (mem w1) live p pg"
    using pc pq w1 pg' by (auto split: if_splits)
  have lv': "set live \<subseteq> (\<Union>p \<in> dom (pages w1). set (slots_of PS (unat (slotAlignment (pa w1))) p))"
    using lv(2) w1 pg' by auto
  have "InvG PS w1 live"
    unfolding InvG_def using cfg pok' dm' tp' li' pinv' lv(1) lv' w1 by simp
  moreover have "nonFull (pa w1) \<noteq> 0" using w1 cok by simp
  moreover have "no_idle_except w1 (nonFull (pa w1))"
    using ni w1 pg' by (auto simp: no_idle_def no_idle_except_def)
  moreover have "set (avail (pool w1) @ held (pool w1)) = set (avail (pool w) @ held (pool w))"
    using w1 av by auto
  ultimately show ?thesis by blast
qed

lemma dom_core: "(\<forall>q. map_option core (pgs' q) = map_option core (pgs q)) \<Longrightarrow> dom pgs' = dom pgs"
  by (metis (no_types, opaque_lifting) domD domIff map_option_is_None subsetI subset_antisym)

lemma count_bound:
  assumes "page_size_ok PS" "sa = AlignUp (sz::16 word) ALLOC_ALIGNMENT" "sa \<noteq> 0"
  shows "length (slots_of PS (unat sa) p) < 65536"
  using slot_count_less[OF assms(1) sa_ge8[OF assms(2,3)]] assms(1)
  by (simp add: slots_length slot_count_eq)

lemma set_take_aux: "x \<notin> A \<Longrightarrow> insert x A = S - L \<Longrightarrow> A = S - insert x L"
  by blast

lemma take_ok:
  assumes ps: "page_size_ok PS" and invg: "InvG PS w live"
    and nz: "nonFull (pa w) \<noteq> 0" and nie: "no_idle_except w (nonFull (pa w))"
  shows "\<exists>x w'. Allocate_take w = Inr (x, w') \<and> x \<noteq> 0 \<and> x \<notin> set live
          \<and> x \<in> set (slots_of PS (unat (slotAlignment (pa w))) (nonFull (pa w)))
          \<and> nonFull (pa w) \<in> dom (pages w)
          \<and> InvG PS w' (x # live) \<and> no_idle w'
          \<and> mem w' = mem w \<and> pool w' = pool w \<and> slotSize (pa w') = slotSize (pa w)
          \<and> slotAlignment (pa w') = slotAlignment (pa w) \<and> totalPages (pa w') = totalPages (pa w)"
proof -
  let ?sa = "slotAlignment (pa w)"
  let ?pgs = "pages w"
  let ?h = "nonFull (pa w)"
  from InvGD[OF invg] have cfg: "?sa = AlignUp (slotSize (pa w)) ALLOC_ALIGNMENT" "?sa \<noteq> 0"
    and pok: "pool_ok PS (pool w)"
    and dm: "dom ?pgs = set (held (pool w))"
    and tp: "totalPages (pa w) = of_nat (length (held (pool w)))"
    and li: "list_inv w"
    and pinv: "\<And>p pg. ?pgs p = Some pg \<Longrightarrow> page_inv PS (unat ?sa) (mem w) live p pg"
    and lv: "distinct live" "set live \<subseteq> (\<Union>p \<in> dom ?pgs. set (slots_of PS (unat ?sa) p))"
    by blast+
  have s8: "8 \<le> unat ?sa" using cfg by (rule sa_ge8)
  from li obtain xs where xs: "dlist ?pgs ?h xs" "distinct xs"
    and xsc: "\<And>p pg. ?pgs p = Some pg \<Longrightarrow> (p \<in> set xs \<longleftrightarrow> pg_free pg \<noteq> 0)"
    and xsn: "\<And>p pg. ?pgs p = Some pg \<Longrightarrow> p \<notin> set xs \<Longrightarrow> pg_prev pg = 0 \<and> pg_next pg = 0"
    unfolding list_inv_def by blast
  from xs(1) nz obtain xs' where xs': "xs = ?h # xs'" by (cases xs) (auto simp: dlist_def)
  with xs(1) obtain pg where pg: "?pgs ?h = Some pg" "pg_prev pg = 0"
    by (auto simp: dlist_def split: option.splits)
  have fnz: "pg_free pg \<noteq> 0" using xsc[OF pg(1)] xs' by simp
  from pinv[OF pg(1)] obtain fl where fl: "pg_total pg = of_nat (length (slots_of PS (unat ?sa) ?h))"
    "chain (mem w) (pg_header pg) fl" "length fl = unat (pg_free pg)" "distinct fl"
    "set fl = set (slots_of PS (unat ?sa) ?h) - set live" by (auto simp: page_inv_def)
  from fl(3) fnz obtain x fl' where flx: "fl = x # fl'" by (cases fl) (auto simp: unat_eq_0)
  have hx: "pg_header pg = x" "chain (mem w) (load_ptr (mem w) x) fl'" using fl(2) flx by auto
  have xin: "x \<in> set (slots_of PS (unat ?sa) ?h)" "x \<notin> set live" using fl(5) flx by auto
  have x0: "x \<noteq> 0" using slot_bounds(3)[OF xin(1)] .
  let ?pg' = "pg\<lparr>pg_header := load_ptr (mem w) x, pg_free := pg_free pg - 1\<rparr>"
  let ?pgs1 = "?pgs(?h \<mapsto> ?pg')"
  have pa: "Page_Allocate (mem w) pg = (x, ?pg')" using hx x0 by (simp add: Page_Allocate_def)
  have rd: "read_page ?pgs ?h = Inr pg" using nz pg by (simp add: read_page_def)
  have xs1: "dlist ?pgs1 ?h xs" unfolding dlist_def
    using xs(1) pg by (subst dseg_cong[of xs _ ?pgs]) (auto simp: links_def dlist_def)
  \<comment> \<open>the list after the call\<close>
  have "\<exists>hF pgsF ys. (if \<not> Available ?pg' then RemoveFromList ?h ?h ?pgs1 else Inr (?h, ?pgs1)) = Inr (hF, pgsF)
        \<and> dlist pgsF hF ys \<and> distinct ys
        \<and> (\<forall>q. map_option core (pgsF q) = map_option core (?pgs1 q))
        \<and> (\<forall>p pg. pgsF p = Some pg \<longrightarrow> (p \<in> set ys \<longleftrightarrow> pg_free pg \<noteq> 0) \<and>
              (p \<notin> set ys \<longrightarrow> pg_prev pg = 0 \<and> pg_next pg = 0))"
  proof (cases "Available ?pg'")
    case True
    have "(p \<in> set xs \<longleftrightarrow> pg_free q \<noteq> 0) \<and> (p \<notin> set xs \<longrightarrow> pg_prev q = 0 \<and> pg_next q = 0)"
      if q: "?pgs1 p = Some q" for p q
    proof (cases "p = ?h")
      case True
      then have "q = ?pg'" using q by simp
      then show ?thesis using True \<open>Available ?pg'\<close> xs' by (simp add: Available_def)
    next
      case False
      then have "?pgs p = Some q" using q by simp
      then show ?thesis using xsc xsn by blast
    qed
    then have c: "\<forall>p pg. ?pgs1 p = Some pg \<longrightarrow> (p \<in> set xs \<longleftrightarrow> pg_free pg \<noteq> 0) \<and>
              (p \<notin> set xs \<longrightarrow> pg_prev pg = 0 \<and> pg_next pg = 0)" by blast
    have e: "(if \<not> Available ?pg' then RemoveFromList ?h ?h ?pgs1 else Inr (?h, ?pgs1)) = Inr (?h, ?pgs1)"
      using True by simp
    show ?thesis
      by (rule exI[of _ ?h], rule exI[of _ ?pgs1], rule exI[of _ xs], intro conjI)
         (rule e, rule xs1, rule xs(2), simp, rule c)
  next
    case False
    then have f0: "pg_free ?pg' = 0" by (simp add: Available_def)
    from RemoveFromList_ok[OF xs1 xs(2), of ?h] xs'
    obtain pgs2 h2 where r: "RemoveFromList ?h ?h ?pgs1 = Inr (h2, pgs2)" "dlist pgs2 h2 xs'"
      "\<forall>q. map_option core (pgs2 q) = map_option core (?pgs1 q)"
      "\<forall>q. q \<notin> set xs \<longrightarrow> pgs2 q = ?pgs1 q"
      "\<exists>P'. pgs2 ?h = Some P' \<and> pg_prev P' = 0 \<and> pg_next P' = 0" by auto
    have hn: "?h \<notin> set xs'" "distinct xs'" using xs(2) xs' by auto
    have "(p \<in> set xs' \<longleftrightarrow> pg_free q \<noteq> 0) \<and> (p \<notin> set xs' \<longrightarrow> pg_prev q = 0 \<and> pg_next q = 0)"
      if q: "pgs2 p = Some q" for p q
    proof (cases "p = ?h")
      case True
      from r(3)[rule_format, of ?h] q True have "pg_free q = 0" using f0 by (auto simp: core_def)
      then show ?thesis using True hn r(5) q by auto
    next
      case False
      from r(3)[rule_format, of p] q False obtain q0 where q0: "?pgs p = Some q0" "core q = core q0"
        by (auto simp: map_option_case split: option.splits)
      have a: "p \<in> set xs' \<longleftrightarrow> pg_free q \<noteq> 0" using xsc[OF q0(1)] q0(2) False xs' by (auto simp: core_def)
      have "pg_prev q = 0 \<and> pg_next q = 0" if "p \<notin> set xs'"
      proof -
        from that False xs' have "p \<notin> set xs" by simp
        with r(4) False q have "?pgs p = Some q" by auto
        then show ?thesis using xsn \<open>p \<notin> set xs\<close> by blast
      qed
      then show ?thesis using a by blast
    qed
    then have c: "\<forall>p pg. pgs2 p = Some pg \<longrightarrow> (p \<in> set xs' \<longleftrightarrow> pg_free pg \<noteq> 0) \<and>
              (p \<notin> set xs' \<longrightarrow> pg_prev pg = 0 \<and> pg_next pg = 0)" by blast
    have e: "(if \<not> Available ?pg' then RemoveFromList ?h ?h ?pgs1 else Inr (?h, ?pgs1)) = Inr (h2, pgs2)"
      using False r(1) by simp
    show ?thesis
      by (rule exI[of _ h2], rule exI[of _ pgs2], rule exI[of _ xs'], intro conjI)
         (rule e, rule r(2), rule hn(2), rule r(3), rule c)
  qed
  then obtain hF pgsF ys where F:
    "(if \<not> Available ?pg' then RemoveFromList ?h ?h ?pgs1 else Inr (?h, ?pgs1)) = Inr (hF, pgsF)"
    "dlist pgsF hF ys" "distinct ys"
    "\<forall>q. map_option core (pgsF q) = map_option core (?pgs1 q)"
    "\<forall>p pg. pgsF p = Some pg \<longrightarrow> (p \<in> set ys \<longleftrightarrow> pg_free pg \<noteq> 0) \<and>
              (p \<notin> set ys \<longrightarrow> pg_prev pg = 0 \<and> pg_next pg = 0)" by blast
  let ?w' = "w\<lparr>pa := (pa w)\<lparr>nonFull := hF\<rparr>, pages := pgsF\<rparr>"
  have res: "Allocate_take w = Inr (x, ?w')"
    unfolding Allocate_take_def rd then_do_def using pa F(1) by (simp add: Let_def)
  have d1: "dom ?pgs1 = dom ?pgs" using pg by auto
  have domF: "dom pgsF = dom ?pgs" using dom_core[OF F(4)] d1 by (rule trans)
  have sel: "pages ?w' = pgsF" "nonFull (pa ?w') = hF" by simp_all
  have li': "list_inv ?w'" unfolding list_inv_def sel
    using F(2,3,5) by blast
  \<comment> \<open>the free lists\<close>
  have nb: "length (slots_of PS (unat ?sa) ?h) < 65536" by (rule count_bound[OF ps cfg])
  have uf: "unat (pg_free pg - 1) = unat (pg_free pg) - 1" using fnz by (simp add: unat_minus_one)
  have ph: "page_inv PS (unat ?sa) (mem w) (x # live) ?h ?pg'"
    unfolding page_inv_def
  proof (intro conjI exI[of _ fl'])
    show "pg_total ?pg' = of_nat (length (slots_of PS (unat ?sa) ?h))" using fl(1) by simp
    show "chain (mem w) (pg_header ?pg') fl'" using hx by simp
    show "length fl' = unat (pg_free ?pg')" using fl(3) flx uf by simp
    show "distinct fl'" using fl(4) flx by simp
    have "x \<notin> set fl'" using fl(4) flx by simp
    moreover have "insert x (set fl') = set (slots_of PS (unat ?sa) ?h) - set live"
      using fl(5) unfolding flx by simp
    ultimately have "set fl' = set (slots_of PS (unat ?sa) ?h) - insert x (set live)"
      by (rule set_take_aux)
    then show "set fl' = set (slots_of PS (unat ?sa) ?h) - set (x # live)" by simp
  qed
  have pq: "page_inv PS (unat ?sa) (mem w) (x # live) q qg" if q: "?pgs q = Some qg" "q \<noteq> ?h" for q qg
  proof -
    have "PS dvd q" "PS dvd ?h" using q pg dm pool_ok_held[OF pok] by (auto simp: dom_def)
    then have "set (slots_of PS (unat ?sa) q) \<inter> set (slots_of PS (unat ?sa) ?h) = {}"
      using q(2) s8 by (intro slots_disjoint) auto
    then have "x \<notin> set (slots_of PS (unat ?sa) q)" using xin by auto
    then show ?thesis using pinv[OF q(1)] by (auto simp: page_inv_def)
  qed
  have pinv': "page_inv PS (unat ?sa) (mem w) (x # live) p q" if q: "pgsF p = Some q" for p q
  proof -
    from F(4)[rule_format, of p] q obtain q1 where q1: "?pgs1 p = Some q1" "core q = core q1"
      by (auto simp: map_option_case split: option.splits)
    have "page_inv PS (unat ?sa) (mem w) (x # live) p q1"
    proof (cases "p = ?h")
      case True then have "q1 = ?pg'" using q1(1) by simp
      then show ?thesis using ph True by simp
    next
      case False then have "?pgs p = Some q1" using q1(1) by simp
      then show ?thesis using pq False by blast
    qed
    then show ?thesis by (simp only: page_inv_core[OF q1(2)])
  qed
  have hd: "?h \<in> dom ?pgs" using pg by blast
  have lv': "set (x # live) \<subseteq> (\<Union>p \<in> dom pgsF. set (slots_of PS (unat ?sa) p))"
    unfolding domF using lv(2) xin(1) hd by auto
  have invg': "InvG PS ?w' (x # live)"
  proof (rule InvGI)
    show "slotAlignment (pa ?w') = AlignUp (slotSize (pa ?w')) ALLOC_ALIGNMENT" using cfg by simp
    show "slotAlignment (pa ?w') \<noteq> 0" using cfg by simp
    show "pool_ok PS (pool ?w')" using pok by simp
    show "dom (pages ?w') = set (held (pool ?w'))" using dm domF by simp
    show "totalPages (pa ?w') = of_nat (length (held (pool ?w')))" using tp by simp
    show "list_inv ?w'" by (rule li')
    show "\<And>p pg. pages ?w' p = Some pg \<Longrightarrow> page_inv PS (unat (slotAlignment (pa ?w'))) (mem ?w') (x # live) p pg"
      using pinv' by simp
    show "distinct (x # live)" using lv(1) xin(2) by simp
    show "set (x # live) \<subseteq> (\<Union>p \<in> dom (pages ?w'). set (slots_of PS (unat (slotAlignment (pa ?w'))) p))"
      using lv' by simp
  qed
  \<comment> \<open>no idle page\<close>
  have "card (set fl) \<le> card (set (slots_of PS (unat ?sa) ?h))"
    using fl(5) by (intro card_mono) auto
  then have le: "unat (pg_free pg) \<le> length (slots_of PS (unat ?sa) ?h)"
    using fl(3,4) s8 by (simp add: distinct_card slots_distinct)
  have "unat (pg_free ?pg') < unat (pg_total ?pg')"
    using le uf fnz fl(1) nb by (simp add: unat_fr unat_gt_0[symmetric] del: unat_gt_0)
  then have hni: "pg_free ?pg' \<noteq> pg_total ?pg'" by auto
  have ni': "no_idle ?w'" unfolding no_idle_def
  proof (intro allI impI)
    fix p q assume q: "pages ?w' p = Some q"
    from F(4)[rule_format, of p] q obtain q1 where q1: "?pgs1 p = Some q1" "core q = core q1"
      by (auto simp: map_option_case split: option.splits)
    have "pg_free q1 \<noteq> pg_total q1"
      using q1(1) hni nie by (auto simp: no_idle_except_def split: if_splits)
    then show "pg_free q \<noteq> pg_total q" using q1(2) by (simp add: core_def)
  qed
  show ?thesis
    by (rule exI[of _ x], rule exI[of _ ?w'], intro conjI)
       (rule res, rule x0, rule xin(2), rule xin(1), rule hd, rule invg', rule ni', simp_all)
qed

lemma slotSize_le:
  assumes "slotAlignment a = AlignUp (slotSize a) ALLOC_ALIGNMENT" "slotAlignment a \<noteq> 0"
  shows "unat (slotSize a) \<le> unat (slotAlignment a)" and "slotSize a \<noteq> 0"
proof -
  show "unat (slotSize a) \<le> unat (slotAlignment a)" using AlignUp_ge[of "slotSize a"] assms by simp
  show "slotSize a \<noteq> 0"
  proof
    assume "slotSize a = 0"
    then have "slotAlignment a = 0" using assms(1) by (simp add: AlignUp_def AA)
    then show False using assms(2) by simp
  qed
qed

lemma zero_ok:
  assumes ps: "page_size_ok PS" and invg: "InvG PS w (x # live)"
  shows "\<exists>w'. Allocate_zero (x, w) = Inr (x, w') \<and> InvG PS w' (x # live)
          \<and> pages w' = pages w \<and> pa w' = pa w \<and> pool w' = pool w
          \<and> (\<forall>i < unat (slotSize (pa w)). mem w' (x + i) = 0)"
proof -
  let ?sa = "slotAlignment (pa w)"
  let ?S = "unat (slotSize (pa w))"
  let ?pgs = "pages w"
  from InvGD[OF invg] have cfg: "?sa = AlignUp (slotSize (pa w)) ALLOC_ALIGNMENT" "?sa \<noteq> 0"
    and pok: "pool_ok PS (pool w)"
    and dm: "dom ?pgs = set (held (pool w))"
    and tp: "totalPages (pa w) = of_nat (length (held (pool w)))"
    and li: "list_inv w"
    and pinv: "\<And>p pg. ?pgs p = Some pg \<Longrightarrow> page_inv PS (unat ?sa) (mem w) (x # live) p pg"
    and lv: "distinct (x # live)" "set (x # live) \<subseteq> (\<Union>p \<in> dom ?pgs. set (slots_of PS (unat ?sa) p))"
    by blast+
  have s8: "8 \<le> unat ?sa" using cfg by (rule sa_ge8)
  from slotSize_le[OF cfg] have S: "?S \<le> unat ?sa" "?S \<noteq> 0" by (simp_all add: unat_eq_0)
  from lv(2) obtain h where h: "h \<in> dom ?pgs" "x \<in> set (slots_of PS (unat ?sa) h)" by auto
  have x0: "x \<noteq> 0" using slot_bounds(3)[OF h(2)] .
  have hd: "PS dvd h" using h(1) dm pool_ok_held[OF pok] by auto
  let ?m' = "\<lambda>a. if x \<le> a \<and> a < x + ?S then 0 else mem w a"
  have Sm: "?S \<le> SECUREC_MEM_MAX_LEN"
    using unsigned_less[of "slotSize (pa w)", where 'a=nat] by (simp add: SECUREC_MEM_MAX_LEN_def)
  have ms: "memset_s (mem w) x ?S 0 ?S = (True, ?m')"
    using S x0 Sm by (simp add: memset_s_def)
  let ?w' = "w\<lparr>mem := ?m'\<rparr>"
  have res: "Allocate_zero (x, w) = Inr (x, ?w')"
    using x0 ms by (simp add: Allocate_zero_def)
  have pinv': "page_inv PS (unat ?sa) ?m' (x # live) q qg" if q: "?pgs q = Some qg" for q qg
  proof (rule page_inv_frame[OF pinv[OF q]])
    fix y i assume y: "y \<in> set (slots_of PS (unat ?sa) q)" "y \<notin> set (x # live)" and i: "i < (8::nat)"
    have "PS dvd q" using q dm pool_ok_held[OF pok] by (auto simp: dom_def)
    from slot_apart[OF h(2) y(1) _ hd this] y(2)
    have "x + unat ?sa \<le> y \<or> y + unat ?sa \<le> x" by auto
    then show "?m' (y + i) = mem w (y + i)" using S s8 i by auto
  qed
  have invg': "InvG PS ?w' (x # live)"
  proof (rule InvGI)
    show "\<And>p pg. pages ?w' p = Some pg \<Longrightarrow> page_inv PS (unat (slotAlignment (pa ?w'))) (mem ?w') (x # live) p pg"
      using pinv' by simp
    show "list_inv ?w'" using li by (simp add: list_inv_def)
  qed (use cfg pok dm tp lv in simp_all)
  have z: "\<forall>i < ?S. mem ?w' (x + i) = 0" by simp
  show ?thesis
    by (rule exI[of _ ?w'], intro conjI) (rule res, rule invg', simp, simp, simp, rule z)
qed

lemma no_idle_mem: "no_idle (w\<lparr>mem := m\<rparr>) = no_idle w"
  by (simp add: no_idle_def)

lemma Allocate_ok:
  assumes ps: "page_size_ok PS" and inv: "Inv PS w live" and r: "Allocate PS w = Inr (x, w')"
  shows "Inv PS w' (x # live) \<and> x \<noteq> 0 \<and> x \<notin> set live
         \<and> (\<exists>h \<in> dom (pages w'). x \<in> set (slots_of PS (unat (slotAlignment (pa w))) h))
         \<and> slotSize (pa w') = slotSize (pa w) \<and> slotAlignment (pa w') = slotAlignment (pa w)
         \<and> (\<forall>i < unat (slotSize (pa w)). mem w' (x + i) = 0)
         \<and> set (avail (pool w') @ held (pool w')) = set (avail (pool w) @ held (pool w))"
proof -
  from r obtain w1 y w2 where s: "Allocate_new_page PS w = Inr w1" "Allocate_take w1 = Inr (y, w2)"
    "Allocate_zero (y, w2) = Inr (x, w')"
    unfolding Allocate_def by (auto dest!: then_do_Inr)
  from new_page_ok[OF ps inv s(1)] have n: "InvG PS w1 live" "nonFull (pa w1) \<noteq> 0"
    "no_idle_except w1 (nonFull (pa w1))"
    and pl1: "set (avail (pool w1) @ held (pool w1)) = set (avail (pool w) @ held (pool w))" by blast+
  have cf1: "slotSize (pa w1) = slotSize (pa w)" "slotAlignment (pa w1) = slotAlignment (pa w)"
    using s(1) by (auto simp: Allocate_new_page_def Let_def dest!: then_do_Inr split: if_splits prod.splits)
  from take_ok[OF ps n] s(2) have t: "y \<noteq> 0" "y \<notin> set live"
    "y \<in> set (slots_of PS (unat (slotAlignment (pa w1))) (nonFull (pa w1)))"
    "nonFull (pa w1) \<in> dom (pages w1)"
    "InvG PS w2 (y # live)" "no_idle w2" "slotSize (pa w2) = slotSize (pa w1)"
    "slotAlignment (pa w2) = slotAlignment (pa w1)" "pool w2 = pool w1" by auto
  have dm2: "dom (pages w2) = dom (pages w1)"
    using InvGD(4)[OF t(5)] InvGD(4)[OF n(1)] take_ok[OF ps n] s(2) by auto
  from zero_ok[OF ps t(5)] s(3) have z: "x = y" "InvG PS w' (y # live)" "pages w' = pages w2"
    "pa w' = pa w2" "\<forall>i < unat (slotSize (pa w2)). mem w' (y + i) = 0" "pool w' = pool w2" by auto
  have "no_idle w'" using t(6) z(3) by (simp add: no_idle_def)
  then have "Inv PS w' (x # live)" using z by (simp add: Inv_def)
  moreover have "\<exists>h \<in> dom (pages w'). x \<in> set (slots_of PS (unat (slotAlignment (pa w))) h)"
    using t(3,4) z(1,3) dm2 cf1 by auto
  ultimately show ?thesis using t z cf1 pl1 by simp
qed

lemma set_put_aux: "p \<in> S \<Longrightarrow> A = S - L \<Longrightarrow> p \<in> L \<Longrightarrow> insert p A = S - (L - {p})"
  by blast

lemma set_other_aux: "p \<notin> S \<Longrightarrow> A = S - L \<Longrightarrow> A = S - (L - {p})"
  by blast

lemma unat_inc16: "unat (f::16 word) < n \<Longrightarrow> n < 65536 \<Longrightarrow> unat (f + 1) = unat f + 1"
  by (simp add: unat_word_ariths)

lemma of_nat_dec32: "0 < n \<Longrightarrow> (of_nat n :: 32 word) - 1 = of_nat (n - 1)"
  by (cases n) simp_all

lemma removeAll_length: "distinct xs \<Longrightarrow> c \<in> set xs \<Longrightarrow> length (removeAll c xs) = length xs - 1"
  by (simp add: distinct_remove1_removeAll[symmetric] length_remove1)

lemma Deallocate_ok:
  assumes ps: "page_size_ok PS" and inv: "Inv PS w live" and pl: "p \<in> set live"
  shows "\<exists>w'. Deallocate PS w p = Inr w' \<and> Inv PS w' (removeAll p live)
          \<and> slotSize (pa w') = slotSize (pa w) \<and> slotAlignment (pa w') = slotAlignment (pa w)
          \<and> set (avail (pool w') @ held (pool w')) = set (avail (pool w) @ held (pool w))
          \<and> (\<exists>pg. pages w (AlignDown p PS) = Some pg \<and>
                (if pg_free pg + 1 = pg_total pg
                 then pages w' (AlignDown p PS) = None \<and> pool w' = ReturnPage (pool w) (AlignDown p PS)
                 else pages w' (AlignDown p PS) \<noteq> None \<and> pool w' = pool w))"
proof -
  let ?sa = "slotAlignment (pa w)"
  let ?pgs = "pages w"
  let ?h = "nonFull (pa w)"
  let ?live' = "removeAll p live"
  from inv have invg: "InvG PS w live" and ni: "no_idle w" by (simp_all add: Inv_def)
  from InvGD[OF invg] have cfg: "?sa = AlignUp (slotSize (pa w)) ALLOC_ALIGNMENT" "?sa \<noteq> 0"
    and pok: "pool_ok PS (pool w)"
    and dm: "dom ?pgs = set (held (pool w))"
    and tp: "totalPages (pa w) = of_nat (length (held (pool w)))"
    and li: "list_inv w"
    and pinv: "\<And>p pg. ?pgs p = Some pg \<Longrightarrow> page_inv PS (unat ?sa) (mem w) live p pg"
    and lv: "distinct live" "set live \<subseteq> (\<Union>p \<in> dom ?pgs. set (slots_of PS (unat ?sa) p))"
    by blast+
  have s8: "8 \<le> unat ?sa" using cfg by (rule sa_ge8)
  have sl': "set ?live' = set live - {p}" by auto
  from li obtain xs where xs: "dlist ?pgs ?h xs" "distinct xs"
    and xsc: "\<And>q pg. ?pgs q = Some pg \<Longrightarrow> (q \<in> set xs \<longleftrightarrow> pg_free pg \<noteq> 0)"
    and xsn: "\<And>q pg. ?pgs q = Some pg \<Longrightarrow> q \<notin> set xs \<Longrightarrow> pg_prev pg = 0 \<and> pg_next pg = 0"
    unfolding list_inv_def by blast
  \<comment> \<open>the page of the slot\<close>
  from pl lv(2) obtain c where c: "c \<in> dom ?pgs" "p \<in> set (slots_of PS (unat ?sa) c)" by blast
  then obtain pg0 where pg0: "?pgs c = Some pg0" by blast
  have cok: "c \<noteq> 0" "PS dvd c" "c + PS < 2 ^ 64" "c \<in> set (held (pool w))"
    using c(1) dm pool_ok_held[OF pok, of c] by auto
  have cur: "AlignDown p PS = c" using slot_page[OF c(2) cok(2)] s8 by simp
  have rd0: "read_page ?pgs c = Inr pg0" using cok pg0 by (simp add: read_page_def)
  from pinv[OF pg0] obtain fl where fl: "pg_total pg0 = of_nat (length (slots_of PS (unat ?sa) c))"
    "chain (mem w) (pg_header pg0) fl" "length fl = unat (pg_free pg0)" "distinct fl"
    "set fl = set (slots_of PS (unat ?sa) c) - set live" by (auto simp: page_inv_def)
  have pfl: "p \<notin> set fl" using fl(5) pl by simp
  have nb: "length (slots_of PS (unat ?sa) c) < 65536" by (rule count_bound[OF ps cfg])
  have "card (insert p (set fl)) \<le> card (set (slots_of PS (unat ?sa) c))"
    using fl(5) c(2) by (intro card_mono) auto
  then have lt: "unat (pg_free pg0) < length (slots_of PS (unat ?sa) c)"
    using fl(3,4) pfl s8 by (simp add: distinct_card slots_distinct)
  \<comment> \<open>the page is put on the list\<close>
  have "\<exists>h1 pgs1 xs1. (if \<not> Available pg0 then AddToList ?h c ?pgs else Inr (?h, ?pgs)) = Inr (h1, pgs1)
      \<and> dlist pgs1 h1 xs1 \<and> distinct xs1 \<and> set xs1 = insert c (set xs)
      \<and> (\<forall>q. map_option core (pgs1 q) = map_option core (?pgs q))
      \<and> (\<forall>q. q \<notin> set xs1 \<longrightarrow> pgs1 q = ?pgs q)"
  proof (cases "Available pg0")
    case True
    then have "c \<in> set xs" using xsc[OF pg0] by (simp add: Available_def)
    then have a: "set xs = insert c (set xs)" by auto
    have e: "(if \<not> Available pg0 then AddToList ?h c ?pgs else Inr (?h, ?pgs)) = Inr (?h, ?pgs)"
      using True by simp
    show ?thesis
      by (rule exI[of _ ?h], rule exI[of _ ?pgs], rule exI[of _ xs], intro conjI)
         (rule e, rule xs(1), rule xs(2), rule a, simp, simp)
  next
    case False
    then have cn: "c \<notin> set xs" using xsc[OF pg0] by (simp add: Available_def)
    then have "pg_prev pg0 = 0" using xsn[OF pg0] by simp
    from AddToList_ok[OF xs cn pg0 this cok(1)]
    obtain pgs1 where a: "AddToList ?h c ?pgs = Inr (c, pgs1)" "dlist pgs1 c (c # xs)"
      "\<forall>q. map_option core (pgs1 q) = map_option core (?pgs q)"
      "\<forall>q. q \<notin> set (c # xs) \<longrightarrow> pgs1 q = ?pgs q" by blast
    have e: "(if \<not> Available pg0 then AddToList ?h c ?pgs else Inr (?h, ?pgs)) = Inr (c, pgs1)"
      using False a(1) by simp
    have d: "distinct (c # xs)" using cn xs(2) by simp
    show ?thesis
      by (rule exI[of _ c], rule exI[of _ pgs1], rule exI[of _ "c # xs"], intro conjI)
         (rule e, rule a(2), rule d, simp, rule a(3), rule a(4))
  qed
  then obtain h1 pgs1 xs1 where A:
    "(if \<not> Available pg0 then AddToList ?h c ?pgs else Inr (?h, ?pgs)) = Inr (h1, pgs1)"
    "dlist pgs1 h1 xs1" "distinct xs1" "set xs1 = insert c (set xs)"
    "\<forall>q. map_option core (pgs1 q) = map_option core (?pgs q)"
    "\<forall>q. q \<notin> set xs1 \<longrightarrow> pgs1 q = ?pgs q" by blast
  from A(5)[rule_format, of c] pg0 obtain pg1 where pg1: "pgs1 c = Some pg1" "core pg1 = core pg0"
    by (auto simp: map_option_case split: option.splits)
  have rd1: "read_page pgs1 c = Inr pg1" using cok pg1 by (simp add: read_page_def)
  \<comment> \<open>the slot is put on the free list\<close>
  let ?m' = "store_ptr (mem w) p (pg_header pg1)"
  let ?pg2 = "pg1\<lparr>pg_header := p, pg_free := pg_free pg1 + 1\<rparr>"
  let ?pgs2 = "pgs1(c \<mapsto> ?pg2)"
  have pd: "Page_Deallocate (mem w) pg1 p = (?m', ?pg2)" by (simp add: Page_Deallocate_def)
  have c1: "pg_header pg1 = pg_header pg0" "pg_total pg1 = pg_total pg0" "pg_free pg1 = pg_free pg0"
    using pg1(2) by (simp_all add: core_def)
  have f2: "unat (pg_free ?pg2) = unat (pg_free pg0) + 1"
    using unat_inc16[OF lt nb] c1 by simp
  have xs2: "dlist ?pgs2 h1 xs1" unfolding dlist_def
    using A(2) pg1 by (subst dseg_cong[of xs1 _ pgs1]) (auto simp: links_def dlist_def)
  have core2: "\<And>q. q \<noteq> c \<Longrightarrow> map_option core (?pgs2 q) = map_option core (?pgs q)"
    using A(5) by simp
  have frame: "?m' (y + i) = mem w (y + i)"
    if y: "y \<in> set (slots_of PS (unat ?sa) q)" "y \<noteq> p" "?pgs q = Some qg" "i < 8" for y q qg i
  proof -
    have "PS dvd q" using y(3) dm pool_ok_held[OF pok] by (auto simp: dom_def)
    from slot_apart[OF c(2) y(1) _ cok(2) this] y(2)
    have "p + unat ?sa \<le> y \<or> y + unat ?sa \<le> p" by auto
    then show ?thesis using s8 y(4) by (intro store_other) auto
  qed
  have "insert p (set fl) = set (slots_of PS (unat ?sa) c) - (set live - {p})"
    using c(2) fl(5) pl by (rule set_put_aux)
  then have pset: "set (p # fl) = set (slots_of PS (unat ?sa) c) - set ?live'" by (simp add: sl')
  have ph: "page_inv PS (unat ?sa) ?m' ?live' c ?pg2"
    unfolding page_inv_def
  proof (intro conjI exI[of _ "p # fl"])
    show "pg_total ?pg2 = of_nat (length (slots_of PS (unat ?sa) c))" using fl(1) c1 by simp
    have "chain ?m' (pg_header pg0) fl = chain (mem w) (pg_header pg0) fl"
      using fl(5) pfl pg0 by (intro chain_cong frame[of _ c]) auto
    then have ch: "chain ?m' (pg_header pg0) fl" using fl(2) by simp
    have "chain ?m' (load_ptr ?m' p) fl"
    proof (cases fl)
      case Nil then show ?thesis by simp
    next
      case (Cons y ys)
      then have "pg_header pg0 = y" "y \<in> set (slots_of PS (unat ?sa) c)" using fl(2,5) by auto
      then have "pg_header pg0 < 2 ^ 64" using slot_bounds(2)[of y PS "unat ?sa" c] cok(3) by simp
      then have "load_ptr ?m' p = pg_header pg0" by (simp add: load_store_same c1)
      then show ?thesis using ch by simp
    qed
    then show "chain ?m' (pg_header ?pg2) (p # fl)" by simp
    show "length (p # fl) = unat (pg_free ?pg2)" using f2 fl(3) by simp
    show "distinct (p # fl)" using fl(4) pfl by simp
    show "set (p # fl) = set (slots_of PS (unat ?sa) c) - set ?live'" by (rule pset)
  qed
  have pq: "page_inv PS (unat ?sa) ?m' ?live' q qg" if q: "?pgs q = Some qg" "q \<noteq> c" for q qg
  proof -
    from pinv[OF q(1)] obtain flq where flq: "pg_total qg = of_nat (length (slots_of PS (unat ?sa) q))"
      "chain (mem w) (pg_header qg) flq" "length flq = unat (pg_free qg)" "distinct flq"
      "set flq = set (slots_of PS (unat ?sa) q) - set live" by (auto simp: page_inv_def)
    have "PS dvd q" using q dm pool_ok_held[OF pok] by (auto simp: dom_def)
    then have "set (slots_of PS (unat ?sa) q) \<inter> set (slots_of PS (unat ?sa) c) = {}"
      using q(2) s8 cok(2) by (intro slots_disjoint) auto
    then have pn: "p \<notin> set (slots_of PS (unat ?sa) q)" using c(2) by auto
    have "chain ?m' (pg_header qg) flq = chain (mem w) (pg_header qg) flq"
      using flq(5) pl q(1) by (intro chain_cong frame[of _ q]) auto
    moreover have "set flq = set (slots_of PS (unat ?sa) q) - (set live - {p})"
      using pn flq(5) by (rule set_other_aux)
    ultimately show ?thesis unfolding page_inv_def using flq by (auto simp: sl')
  qed
  have pinv2: "page_inv PS (unat ?sa) ?m' ?live' q qg"
    if q: "pgsX q = Some qg" and cx: "\<forall>q. map_option core (pgsX q) = map_option core (?pgs2 q)" for q qg pgsX
  proof -
    from cx[rule_format, of q] q obtain q2 where q2: "?pgs2 q = Some q2" "core qg = core q2"
      by (auto simp: map_option_case split: option.splits)
    have "page_inv PS (unat ?sa) ?m' ?live' q q2"
    proof (cases "q = c")
      case True then have "q2 = ?pg2" using q2(1) by simp
      then show ?thesis using ph True by simp
    next
      case False
      with core2[of q] q2(1) obtain q0 where q0: "?pgs q = Some q0" "core q2 = core q0"
        by (auto simp: map_option_case split: option.splits)
      show ?thesis using pq[OF q0(1) False] page_inv_core[OF q0(2)] by simp
    qed
    then show ?thesis by (simp only: page_inv_core[OF q2(2)])
  qed
  have dom2: "dom ?pgs2 = dom ?pgs" using dom_core[OF A(5)] pg1(1) by auto
  show ?thesis
  proof (cases "Empty ?pg2")
    case False
    let ?w' = "w\<lparr>pa := (pa w)\<lparr>nonFull := h1\<rparr>, pages := ?pgs2, mem := ?m'\<rparr>"
    have res: "Deallocate PS w p = Inr ?w'"
      unfolding Deallocate_def Let_def cur rd0 then_do_def using A(1) rd1 pd False
      by simp
    have sel: "pages ?w' = ?pgs2" "nonFull (pa ?w') = h1" by simp_all
    have lc: "(q \<in> set xs1 \<longleftrightarrow> pg_free qg \<noteq> 0) \<and> (q \<notin> set xs1 \<longrightarrow> pg_prev qg = 0 \<and> pg_next qg = 0)"
      if q: "?pgs2 q = Some qg" for q qg
    proof (cases "q = c")
      case True
      then have "qg = ?pg2" using q by simp
      then have "pg_free qg \<noteq> 0" using f2 by (auto simp: unat_eq_0[symmetric] simp del: unat_eq_0)
      then show ?thesis using True A(4) by simp
    next
      case False
      then have q1: "pgs1 q = Some qg" using q by simp
      with A(5)[rule_format, of q] obtain q0 where q0: "?pgs q = Some q0" "core qg = core q0"
        by (auto simp: map_option_case split: option.splits)
      have a: "q \<in> set xs1 \<longleftrightarrow> pg_free qg \<noteq> 0"
        using xsc[OF q0(1)] A(4) False q0(2) by (simp add: core_def)
      have "pg_prev qg = 0 \<and> pg_next qg = 0" if n: "q \<notin> set xs1"
      proof -
        from n A(6) q1 have "?pgs q = Some qg" by simp
        moreover have "q \<notin> set xs" using n A(4) by simp
        ultimately show ?thesis using xsn by blast
      qed
      then show ?thesis using a by blast
    qed
    have li': "list_inv ?w'" unfolding list_inv_def sel
      using xs2 A(3) lc by blast
    have lv': "set ?live' \<subseteq> (\<Union>q \<in> dom ?pgs2. set (slots_of PS (unat ?sa) q))"
      unfolding dom2 using lv(2) by auto
    have invg': "InvG PS ?w' ?live'"
    proof (rule InvGI)
      show "list_inv ?w'" by (rule li')
      show "\<And>q qg. pages ?w' q = Some qg \<Longrightarrow> page_inv PS (unat (slotAlignment (pa ?w'))) (mem ?w') ?live' q qg"
        using pinv2[of ?pgs2] by simp
      show "dom (pages ?w') = set (held (pool ?w'))" using dm dom2 by simp
      show "set ?live' \<subseteq> (\<Union>p \<in> dom (pages ?w'). set (slots_of PS (unat (slotAlignment (pa ?w'))) p))"
        using lv' by simp
      show "distinct ?live'" using lv(1) by (simp add: distinct_removeAll)
    qed (use cfg pok tp in simp_all)
    have ni': "no_idle ?w'" unfolding no_idle_def sel
    proof (intro allI impI)
      fix q qg assume q: "?pgs2 q = Some qg"
      show "pg_free qg \<noteq> pg_total qg"
      proof (cases "q = c")
        case True then show ?thesis using q False by (auto simp: Empty_def)
      next
        case False
        then have q1: "pgs1 q = Some qg" using q by simp
        with A(5)[rule_format, of q] obtain q0 where q0: "?pgs q = Some q0" "core qg = core q0"
          by (auto simp: map_option_case split: option.splits)
        then show ?thesis using ni by (auto simp: no_idle_def core_def)
      qed
    qed
    have ne: "pg_free pg0 + 1 \<noteq> pg_total pg0" using False c1 by (simp add: Empty_def)
    have fin: "\<exists>pg. pages w (AlignDown p PS) = Some pg \<and>
                (if pg_free pg + 1 = pg_total pg
                 then pages ?w' (AlignDown p PS) = None \<and> pool ?w' = ReturnPage (pool w) (AlignDown p PS)
                 else pages ?w' (AlignDown p PS) \<noteq> None \<and> pool ?w' = pool w)"
      unfolding cur by (rule exI[of _ pg0]) (simp add: pg0 ne)
    show ?thesis
      by (rule exI[of _ ?w'], intro conjI) (rule res, simp add: Inv_def invg' ni', simp, simp, simp, rule fin)
  next
    case True
    then have ft: "pg_free ?pg2 = pg_total ?pg2" by (simp add: Empty_def)
    have cx: "c \<in> set xs1" using A(4) by simp
    from RemoveFromList_ok[OF xs2 A(3) cx]
    obtain pgs3 h2 where R: "RemoveFromList h1 c ?pgs2 = Inr (h2, pgs3)" "dlist pgs3 h2 (remove1 c xs1)"
      "\<forall>q. map_option core (pgs3 q) = map_option core (?pgs2 q)"
      "\<forall>q. q \<notin> set xs1 \<longrightarrow> pgs3 q = ?pgs2 q" by blast
    from R(3)[rule_format, of c] obtain pg3 where pg3: "pgs3 c = Some pg3" "core pg3 = core ?pg2"
      by (auto simp: map_option_case split: option.splits)
    have rd3: "read_page pgs3 c = Inr pg3" using cok pg3 by (simp add: read_page_def)
    have ft3: "pg_free pg3 = pg_total pg3" using pg3(2) ft by (simp add: core_def)
    let ?pgs4 = "pgs3(c := None)"
    let ?pl = "ReturnPage (pool w) c"
    have dp: "DestroyPage c pgs3 (pool w) = Inr (?pgs4, ?pl)"
      unfolding DestroyPage_def rd3 then_do_def using ft3 by simp
    let ?w' = "w\<lparr>pa := (pa w)\<lparr>nonFull := h2, totalPages := totalPages (pa w) - 1\<rparr>,
                  pages := ?pgs4, mem := ?m', pool := ?pl\<rparr>"
    have res: "Deallocate PS w p = Inr ?w'"
      unfolding Deallocate_def Let_def cur rd0 then_do_def using A(1) rd1 pd True R(1) dp
      by simp
    have sel: "pages ?w' = ?pgs4" "nonFull (pa ?w') = h2" by simp_all
    let ?ys = "remove1 c xs1"
    have ys: "set ?ys = set xs1 - {c}" "distinct ?ys" "c \<notin> set ?ys" using A(3) by auto
    have d4: "dlist ?pgs4 h2 ?ys" unfolding dlist_def
      using R(2) ys(3) by (subst dseg_cong[of ?ys _ pgs3]) (auto simp: dlist_def)
    have lc: "(q \<in> set ?ys \<longleftrightarrow> pg_free qg \<noteq> 0) \<and> (q \<notin> set ?ys \<longrightarrow> pg_prev qg = 0 \<and> pg_next qg = 0)"
      if q: "?pgs4 q = Some qg" for q qg
    proof -
      have qc: "q \<noteq> c" and q3: "pgs3 q = Some qg" using q by (auto split: if_splits)
      from R(3)[rule_format, of q] q3 qc obtain q1 where q1: "pgs1 q = Some q1" "core qg = core q1"
        by (auto simp: map_option_case split: option.splits)
      with A(5)[rule_format, of q] obtain q0 where q0: "?pgs q = Some q0" "core q1 = core q0"
        by (auto simp: map_option_case split: option.splits)
      have a: "q \<in> set ?ys \<longleftrightarrow> pg_free qg \<noteq> 0"
        using xsc[OF q0(1)] A(4) qc q0(2) q1(2) ys(1) by (simp add: core_def)
      have "pg_prev qg = 0 \<and> pg_next qg = 0" if n: "q \<notin> set ?ys"
      proof -
        from n ys(1) qc have n1: "q \<notin> set xs1" by simp
        with R(4) q3 qc have "pgs1 q = Some qg" by simp
        with n1 A(6) have "?pgs q = Some qg" by simp
        moreover have "q \<notin> set xs" using n1 A(4) by simp
        ultimately show ?thesis using xsn by blast
      qed
      then show ?thesis using a by blast
    qed
    have li': "list_inv ?w'" unfolding list_inv_def sel
      using d4 ys(2) lc by blast
    have dom4: "dom ?pgs4 = dom ?pgs - {c}" using dom_core[OF R(3)] dom2 by auto
    have hl: "set (held ?pl) = set (held (pool w)) - {c}" by (auto simp: ReturnPage_def)
    have pok': "pool_ok PS ?pl"
      using pok cok(4) unfolding pool_ok_def ReturnPage_def by (auto simp: distinct_removeAll)
    have tp': "totalPages (pa w) - 1 = of_nat (length (held ?pl))"
    proof -
      have d: "distinct (held (pool w))" using pok by (simp add: pool_ok_def)
      have "0 < length (held (pool w))" using cok(4) by (cases "held (pool w)") auto
      then show ?thesis using tp removeAll_length[OF d cok(4)]
        by (simp add: ReturnPage_def of_nat_dec32)
    qed
    have full: "set (p # fl) = set (slots_of PS (unat ?sa) c)"
    proof (rule card_subset_eq)
      show "finite (set (slots_of PS (unat ?sa) c))" by simp
      show "set (p # fl) \<subseteq> set (slots_of PS (unat ?sa) c)" using fl(5) c(2) by auto
      have "card (set (p # fl)) = unat (pg_free ?pg2)"
        using fl(3,4) pfl f2 by (simp add: distinct_card del: set_simps)
      also have "\<dots> = length (slots_of PS (unat ?sa) c)"
        using ft fl(1) c1 nb by (simp add: unat_fr)
      also have "\<dots> = card (set (slots_of PS (unat ?sa) c))"
        using s8 by (simp add: distinct_card slots_distinct)
      finally show "card (set (p # fl)) = card (set (slots_of PS (unat ?sa) c))" .
    qed
    from pset full have empty: "set ?live' \<inter> set (slots_of PS (unat ?sa) c) = {}" by blast
    have lv': "set ?live' \<subseteq> (\<Union>q \<in> dom ?pgs4. set (slots_of PS (unat ?sa) q))"
    proof
      fix y assume y: "y \<in> set ?live'"
      then have "y \<in> set live" by simp
      with lv(2) obtain q where q: "q \<in> dom ?pgs" "y \<in> set (slots_of PS (unat ?sa) q)" by blast
      then have "q \<noteq> c" using empty y by auto
      then show "y \<in> (\<Union>q \<in> dom ?pgs4. set (slots_of PS (unat ?sa) q))" using q dom4 by blast
    qed
    have invg': "InvG PS ?w' ?live'"
    proof (rule InvGI)
      show "list_inv ?w'" by (rule li')
      show "page_inv PS (unat (slotAlignment (pa ?w'))) (mem ?w') ?live' q qg" if "pages ?w' q = Some qg" for q qg
      proof -
        from that have "pgs3 q = Some qg" by (auto split: if_splits)
        from pinv2[OF this R(3)] show ?thesis by simp
      qed
      show "dom (pages ?w') = set (held (pool ?w'))" using dm dom4 hl by simp
      show "set ?live' \<subseteq> (\<Union>p \<in> dom (pages ?w'). set (slots_of PS (unat (slotAlignment (pa ?w'))) p))"
        using lv' by simp
      show "distinct ?live'" using lv(1) by (simp add: distinct_removeAll)
      show "pool_ok PS (pool ?w')" using pok' by simp
      show "totalPages (pa ?w') = of_nat (length (held (pool ?w')))" using tp' by simp
    qed (use cfg in simp_all)
    have ni': "no_idle ?w'" unfolding no_idle_def sel
    proof (intro allI impI)
      fix q qg assume q: "?pgs4 q = Some qg"
      have qc: "q \<noteq> c" and q3: "pgs3 q = Some qg" using q by (auto split: if_splits)
      from R(3)[rule_format, of q] q3 qc obtain q1 where q1: "pgs1 q = Some q1" "core qg = core q1"
        by (auto simp: map_option_case split: option.splits)
      with A(5)[rule_format, of q] obtain q0 where q0: "?pgs q = Some q0" "core q1 = core q0"
        by (auto simp: map_option_case split: option.splits)
      then show "pg_free qg \<noteq> pg_total qg" using ni q1(2) by (auto simp: no_idle_def core_def)
    qed
    have eq: "pg_free pg0 + 1 = pg_total pg0" using ft c1 by simp
    have fin: "\<exists>pg. pages w (AlignDown p PS) = Some pg \<and>
                (if pg_free pg + 1 = pg_total pg
                 then pages ?w' (AlignDown p PS) = None \<and> pool ?w' = ReturnPage (pool w) (AlignDown p PS)
                 else pages ?w' (AlignDown p PS) \<noteq> None \<and> pool ?w' = pool w)"
      unfolding cur by (rule exI[of _ pg0]) (simp add: pg0 eq)
    have pp: "set (avail (pool ?w') @ held (pool ?w')) = set (avail (pool w) @ held (pool w))"
      using cok(4) by (auto simp: ReturnPage_def)
    show ?thesis
      by (rule exI[of _ ?w'], intro conjI)
         (rule res, simp add: Inv_def invg' ni', simp, simp, rule pp, rule fin)
  qed
qed

subsection \<open>Sequences of calls keep the invariant\<close>

lemma init_Inv:
  assumes "pool_ok PS pl" "held pl = []" "AlignUp sz ALLOC_ALIGNMENT \<noteq> 0"
  shows "Inv PS (init_world sz pl m) []"
proof -
  have "list_inv (init_world sz pl m)"
    unfolding list_inv_def by (rule exI[of _ "[]"]) (simp add: init_world_def PageAllocator_new_def dlist_def)
  then have "InvG PS (init_world sz pl m) []"
    using assms by (intro InvGI) (simp_all add: init_world_def PageAllocator_new_def)
  then show ?thesis by (simp add: Inv_def no_idle_def init_world_def)
qed

lemma exec1_Inv:
  assumes ps: "page_size_ok PS" and inv: "Inv PS w live" and r: "exec1 PS (w, live) c = Inr (w', live')"
  shows "Inv PS w' live' \<and> slotSize (pa w') = slotSize (pa w) \<and> slotAlignment (pa w') = slotAlignment (pa w)
         \<and> set (avail (pool w') @ held (pool w')) = set (avail (pool w) @ held (pool w))"
proof (cases c)
  case Alloc
  with r obtain x where x: "Allocate PS w = Inr (x, w')" "live' = (if x \<noteq> 0 then x # live else live)"
    by (auto split: sum.splits)
  from Allocate_ok[OF ps inv x(1)] x(2) show ?thesis by simp
next
  case (Dealloc p)
  with r have p: "p \<in> set live" "Deallocate PS w p = Inr w'" "live' = removeAll p live"
    by (auto split: sum.splits if_splits)
  from Deallocate_ok[OF ps inv p(1)] p(2,3) show ?thesis by auto
qed

lemma exec_Inv:
  assumes ps: "page_size_ok PS"
  shows "Inv PS w live \<Longrightarrow> exec PS (w, live) cs = Inr (w', live') \<Longrightarrow>
     Inv PS w' live' \<and> slotSize (pa w') = slotSize (pa w) \<and> slotAlignment (pa w') = slotAlignment (pa w)
     \<and> set (avail (pool w') @ held (pool w')) = set (avail (pool w) @ held (pool w))"
proof (induction cs arbitrary: w live)
  case Nil then show ?case by simp
next
  case (Cons c cs)
  from Cons.prems(2) obtain w1 live1 where s: "exec1 PS (w, live) c = Inr (w1, live1)"
    "exec PS (w1, live1) cs = Inr (w', live')" by (auto split: sum.splits)
  from exec1_Inv[OF ps Cons.prems(1) s(1)] Cons.IH[OF _ s(2)] show ?case by simp
qed

lemma exec_sa0:
  assumes "AlignUp sz ALLOC_ALIGNMENT = 0" "exec PS (init_world sz pl m, []) cs = Inr s"
  shows "cs = []"
proof (cases cs)
  case Nil then show ?thesis by simp
next
  case (Cons c cs')
  have "Allocate PS (init_world sz pl m) = Inl NullDeref \<or> Allocate PS (init_world sz pl m) = Inl DivByZero"
    using assms(1)
    by (simp add: Allocate_def Allocate_new_page_def InitPage_def then_do_def init_world_def
        PageAllocator_new_def split: prod.splits)
  then have "\<exists>e. exec1 PS (init_world sz pl m, []) c = Inl e" by (cases c) auto
  then show ?thesis using assms(2) Cons by auto
qed

text \<open>Every state reached from the constructed allocator.\<close>

lemma reach_Inv:
  assumes "page_size_ok PS" "pool_ok PS pl" "held pl = []"
    and "exec PS (init_world sz pl m, []) cs = Inr (w, live)"
  shows "(Inv PS w live \<or> (w = init_world sz pl m \<and> live = [] \<and> slotAlignment (pa w) = 0))
         \<and> slotSize (pa w) = sz \<and> slotAlignment (pa w) = AlignUp sz ALLOC_ALIGNMENT"
proof (cases "AlignUp sz ALLOC_ALIGNMENT = 0")
  case True
  from exec_sa0[OF True assms(4)] have "cs = []" .
  with assms(4) have e: "w = init_world sz pl m" "live = []" by simp_all
  have "slotSize (pa (init_world sz pl m)) = sz"
    "slotAlignment (pa (init_world sz pl m)) = AlignUp sz ALLOC_ALIGNMENT"
    by (simp_all add: init_world_def PageAllocator_new_def)
  then show ?thesis unfolding e using True by simp
next
  case False
  from exec_Inv[OF assms(1) init_Inv[OF assms(2,3) False] assms(4)]
  show ?thesis by (simp add: init_world_def PageAllocator_new_def)
qed

lemma dseg_resident: "dseg pgs prv h xs t \<Longrightarrow> x \<in> set xs \<Longrightarrow> pgs x \<noteq> None"
  by (induction xs arbitrary: prv h) (auto split: option.splits)

lemma Inv_aligned:
  assumes ps: "page_size_ok PS" and inv: "Inv PS w live" and h: "h \<in> dom (pages w)"
    and x: "x \<in> set (slots_of PS (unat (slotAlignment (pa w))) h)"
  shows "8 dvd x" and "AlignDown x PS = h"
proof -
  from inv have invg: "InvG PS w live" by (simp add: Inv_def)
  have "h \<in> set (held (pool w))" using h InvGD(4)[OF invg] by blast
  then have hh: "PS dvd h" using pool_ok_held[OF InvGD(3)[OF invg], of h] by blast
  have "8 dvd PS" using ps by (simp add: page_size_ok_def)
  then have h8: "8 dvd h" using hh by (rule dvd_trans)
  have "8 dvd unat (AlignUp (slotSize (pa w)) (ALLOC_ALIGNMENT :: 16 word))" by (rule AlignUp_dvd)
  then have s8: "8 dvd unat (slotAlignment (pa w))" by (simp only: InvGD(1)[OF invg])
  show "8 dvd x" using x h8 s8 by (rule slot_aligned)
  have "0 < unat (slotAlignment (pa w))" using sa_ge8[OF InvGD(1,2)[OF invg]] by simp
  then show "AlignDown x PS = h" by (rule slot_page[OF x hh])
qed

lemma InitPage_sa0: "InitPage PS 0 c pgs m = Inl (if c = 0 then NullDeref else DivByZero)"
  by (simp add: InitPage_def)

lemma Allocate_init_fails:
  assumes "slotAlignment (pa w) = 0" "nonFull (pa w) = 0" "Allocate PS w = Inr r"
  shows False
proof -
  from assms(3) obtain w1 where "Allocate_new_page PS w = Inr w1"
    unfolding Allocate_def by (auto dest!: then_do_Inr)
  then show False using assms(1,2)
    by (simp add: Allocate_new_page_def InitPage_sa0 then_do_def split: prod.splits)
qed

subsection \<open>A run, evaluated\<close>

lemma upt8: "[0..<8] = [0, 1, 2, 3, 4, 5, 6, 7::nat]"
  by code_simp

lemma load_ptr_unrolled:
  "load_ptr m a = unat (m a) + unat (m (a + 1)) * 256 + unat (m (a + 2)) * 256 ^ 2
     + unat (m (a + 3)) * 256 ^ 3 + unat (m (a + 4)) * 256 ^ 4 + unat (m (a + 5)) * 256 ^ 5
     + unat (m (a + 6)) * 256 ^ 6 + unat (m (a + 7)) * 256 ^ 7"
  by (simp add: load_ptr_def upt8)

lemma AlignUp_2016: "AlignUp (2016::16 word) ALLOC_ALIGNMENT = 2016"
  by (simp add: AlignUp_def AA)

lemma AlignUp_64: "AlignUp (64::16 word) ALLOC_ALIGNMENT = 64"
  by (simp add: AlignUp_def AA)

lemma link_slots_2016:
  "link_slots (p + 4095) 2016 (p + 32) (p + 32) m = Some (store_ptr m (p + 32) (p + 2048))"
  apply (subst link_slots.simps)
  apply (simp add: Let_def)
  apply (subst link_slots.simps)
  apply (simp add: Let_def add.commute)
  done

lemma link_slots_4096: "link_slots 8191 2016 4128 4128 m = Some (store_ptr m 4128 6144)"
  using link_slots_2016[of 4096 m] by simp

lemma link_slots_8192: "link_slots 12287 2016 8224 8224 m = Some (store_ptr m 8224 10240)"
  using link_slots_2016[of 8192 m] by simp

lemmas eval_defs = init_world_def PageAllocator_new_def AlignUp_2016 AlignUp_64 Allocate_def
  Allocate_new_page_def GetPage_def InitPage_def slot_count_def offset_eq then_do_def Let_def
  link_slots_4096 link_slots_8192 Allocate_take_def read_page_def modify_page_def
  Page_Allocate_def Available_def Empty_def Allocate_zero_def memset_s_def
  SECUREC_MEM_MAX_LEN_def RemoveFromList_def AddToList_def Deallocate_def Page_Deallocate_def
  DestroyPage_def ReturnPage_def AlignDown_def load_ptr_unrolled store_ptr_def filled_mem_def

lemma page_size_4096: "page_size_ok 4096"
  by (simp add: page_size_ok_def offset_eq)

lemma pool_two_pages: "pool_ok 4096 \<lparr>avail = [4096, 8192], held = []\<rparr>"
  by (simp add: pool_ok_def)

lemma run_example:
  "\<exists>w. exec 4096 (init_world 2016 \<lparr>avail = [4096, 8192], held = []\<rparr> filled_mem, [])
          [Alloc, Alloc, Alloc, Dealloc 4128] = Inr (w, [8224, 6144])
        \<and> (\<exists>pg. pages w 8192 = Some pg \<and> pg_free pg = 1 \<and> pg_total pg = 2)"
  by (simp add: eval_defs)

lemma replicate_3: "replicate 3 x = [x, x, x]"
  by (simp add: numeral_3_eq_3)

lemma run_three:
  "\<exists>w. exec 4096 (init_world 2016 \<lparr>avail = [4096, 8192], held = []\<rparr> filled_mem, [])
          (replicate 3 Alloc) = Inr (w, [8224, 6144, 4128])"
  unfolding replicate_3 by (simp add: eval_defs)

lemma alloc_example:
  "\<exists>w'. Allocate 4096 (init_world 2016 \<lparr>avail = [4096, 8192], held = []\<rparr> filled_mem) = Inr (4128, w')"
  by (simp add: eval_defs)

lemma alloc_64:
  "map_sum id fst (Allocate 4096 (init_world 64 \<lparr>avail = [4096], held = []\<rparr> filled_mem)) = Inr 4128"
proof -
  obtain m' where "link_slots 8191 64 4128 4128 filled_mem = Some m'"
    using link_slots_chain[of 64 8191 4128 filled_mem] by auto
  then show ?thesis by (simp add: eval_defs)
qed

lemma Inv_live_apart:
  assumes inv: "Inv PS w live" and a: "a \<in> set live" and b: "b \<in> set live" and ne: "a \<noteq> b"
  shows "a + unat (slotSize (pa w)) \<le> b \<or> b + unat (slotSize (pa w)) \<le> a"
proof -
  let ?sa = "slotAlignment (pa w)"
  from inv have invg: "InvG PS w live" by (simp add: Inv_def)
  note lv = InvGD(9)[OF invg]
  from a lv obtain p where p: "p \<in> dom (pages w)" "a \<in> set (slots_of PS (unat ?sa) p)" by blast
  from b lv obtain q where q: "q \<in> dom (pages w)" "b \<in> set (slots_of PS (unat ?sa) q)" by blast
  have "p \<in> set (held (pool w))" "q \<in> set (held (pool w))" using p(1) q(1) InvGD(4)[OF invg] by blast+
  then have "PS dvd p" "PS dvd q" using pool_ok_held[OF InvGD(3)[OF invg]] by blast+
  from slot_apart[OF p(2) q(2) ne this]
  have "a + unat ?sa \<le> b \<or> b + unat ?sa \<le> a" .
  moreover have "unat (slotSize (pa w)) \<le> unat ?sa" using slotSize_le(1)[OF InvGD(1,2)[OF invg]] .
  ultimately show ?thesis by linarith
qed

lemma Inv_empty:
  assumes ps: "page_size_ok PS" and inv: "Inv PS w []"
  shows "pages w = Map.empty" and "held (pool w) = []" and "totalPages (pa w) = 0"
proof -
  let ?sa = "slotAlignment (pa w)"
  from inv have invg: "InvG PS w []" and ni: "no_idle w" by (simp_all add: Inv_def)
  have s8: "8 \<le> unat ?sa" using InvGD(1,2)[OF invg] by (rule sa_ge8)
  have "pages w p = None" for p
  proof (rule ccontr)
    assume "pages w p \<noteq> None"
    then obtain pg where pg: "pages w p = Some pg" by blast
    from InvGD(7)[OF invg pg] obtain fl where fl: "pg_total pg = of_nat (length (slots_of PS (unat ?sa) p))"
      "length fl = unat (pg_free pg)" "distinct fl" "set fl = set (slots_of PS (unat ?sa) p)"
      by (auto simp: page_inv_def)
    have "card (set fl) = card (set (slots_of PS (unat ?sa) p))" using fl(4) by simp
    then have "length fl = length (slots_of PS (unat ?sa) p)"
      using fl(3) s8 by (simp add: distinct_card slots_distinct)
    moreover have "length (slots_of PS (unat ?sa) p) < 65536"
      by (rule count_bound[OF ps InvGD(1,2)[OF invg]])
    ultimately have "unat (pg_free pg) = unat (pg_total pg)" using fl(1,2) by (simp add: unat_fr)
    then have "pg_free pg = pg_total pg" by (rule word_unat_eq_iff[THEN iffD2])
    then show False using ni pg by (simp add: no_idle_def)
  qed
  then show e: "pages w = Map.empty" by auto
  then show h: "held (pool w) = []" using InvGD(4)[OF invg] by simp
  show "totalPages (pa w) = 0" using InvGD(5)[OF invg] h by simp
qed

lemma dealloc_all:
  assumes ps: "page_size_ok PS"
  shows "Inv PS w live \<Longrightarrow> mset ds = mset live \<Longrightarrow>
     \<exists>w'. exec PS (w, live) (map Dealloc ds) = Inr (w', []) \<and> Inv PS w' []
        \<and> set (avail (pool w') @ held (pool w')) = set (avail (pool w) @ held (pool w))"
proof (induction ds arbitrary: w live)
  case Nil
  then show ?case by simp
next
  case (Cons p ds)
  from Cons.prems(2) have pl: "p \<in> set live" by (metis list.set_intros(1) mset_eq_setD)
  from Cons.prems(1) have "InvG PS w live" by (simp add: Inv_def)
  then have dl: "distinct live" by (rule InvGD(8))
  from Deallocate_ok[OF ps Cons.prems(1) pl] obtain w1 where w1: "Deallocate PS w p = Inr w1"
    "Inv PS w1 (removeAll p live)"
    "set (avail (pool w1) @ held (pool w1)) = set (avail (pool w) @ held (pool w))" by blast
  have "mset (removeAll p live) = mset live - {#p#}"
    using dl by (simp add: distinct_remove1_removeAll[symmetric])
  also have "\<dots> = mset ds" using Cons.prems(2)[symmetric] by simp
  finally have m: "mset ds = mset (removeAll p live)" by simp
  from Cons.IH[OF w1(2) m] obtain w' where w': "exec PS (w1, removeAll p live) (map Dealloc ds) = Inr (w', [])"
    "Inv PS w' []" "set (avail (pool w') @ held (pool w')) = set (avail (pool w1) @ held (pool w1))" by blast
  have "exec PS (w, live) (map Dealloc (p # ds)) = Inr (w', [])"
    using pl w1(1) w'(1) by simp
  then show ?case using w'(2,3) w1(3) by blast
qed

lemma alloc_count:
  assumes ps: "page_size_ok PS"
  shows "Inv PS w live \<Longrightarrow> exec PS (w, live) (replicate N Alloc) = Inr (w', live') \<Longrightarrow>
     length live' = length live + N"
proof (induction N arbitrary: w live)
  case 0 then show ?case by simp
next
  case (Suc N)
  from Suc.prems(2) obtain x w1 where s: "Allocate PS w = Inr (x, w1)"
    "exec PS (w1, if x \<noteq> 0 then x # live else live) (replicate N Alloc) = Inr (w', live')"
    by (auto split: sum.splits)
  from Allocate_ok[OF ps Suc.prems(1) s(1)] have x: "Inv PS w1 (x # live)" "x \<noteq> 0" by blast+
  from Suc.IH[OF x(1)] s(2) x(2) show ?case by simp
qed

lemma InvD: "Inv PS w live \<Longrightarrow> InvG PS w live"
  by (simp add: Inv_def)

subsection \<open>The routing of AggregateAllocator\<close>

lemma and_not_7_32: "(y::32 word) AND NOT 7 = push_bit 3 (drop_bit 3 y)"
proof -
  have "(7::32 word) = mask 3" by (simp add: mask_eq_exp_minus_1)
  then show ?thesis
    by (simp add: bit_eq_iff bit_simps) (auto simp: bit_simps)
qed

lemma unat_and_not_7_32: "unat ((y::32 word) AND NOT 7) = unat y div 8 * 8"
proof -
  have b: "unat y < 4294967296" using unsigned_less[of y] by simp
  have "unat (y AND NOT 7) = unat (push_bit 3 (drop_bit 3 y))"
    by (simp only: and_not_7_32)
  also have "\<dots> = take_bit 32 (push_bit 3 (drop_bit 3 (unat y)))"
    by (simp only: unsigned_push_bit_eq unat_drop_bit_eq) simp
  also have "\<dots> = (unat y div 8 * 8) mod 4294967296"
    by (simp add: push_bit_eq_mult drop_bit_eq_div take_bit_eq_mod)
  also have "\<dots> = unat y div 8 * 8" using b by simp
  finally show ?thesis .
qed

lemma unat_AlignUp_32:
  "unat (AlignUp (x::32 word) ALLOC_ALIGNMENT) = ((unat x + 7) mod 4294967296) div 8 * 8"
proof -
  have "AlignUp x ALLOC_ALIGNMENT = (x + 7) AND NOT 7"
    by (simp add: AlignUp_def AA)
  then have "unat (AlignUp x ALLOC_ALIGNMENT) = unat (x + 7) div 8 * 8"
    by (simp only: unat_and_not_7_32)
  then show ?thesis by (simp add: unat_word_ariths)
qed

text \<open>
  Below \<open>2 ^ 32 - 7\<close> bytes the routing is the one of the spec: the size rounded up to the
  alignment is compared with the largest size class.
\<close>

lemma AggregateAllocator_routing_small:
  assumes "unat sz + 7 < 2 ^ 32"
  shows "AggregateAllocator_Allocate large size_to_idx sz =
           (if aligned_size (unat sz) \<le> unat large
            then PageAllocator_Allocate (size_to_idx (of_nat (aligned_size (unat sz))))
            else PagePool_GetPage sz)"
    and "AggregateAllocator_Deallocate large size_to_idx p sz =
           (if aligned_size (unat sz) \<le> unat large
            then PageAllocator_Deallocate (size_to_idx (of_nat (aligned_size (unat sz)))) p
            else PagePool_ReturnPage p sz)"
proof -
  have u: "unat (ucast sz :: 32 word) = unat sz"
    using assms by (simp add: unsigned_ucast_eq take_bit_eq_mod)
  have a: "unat (AlignUp (ucast sz :: 32 word) ALLOC_ALIGNMENT) = aligned_size (unat sz)"
    using assms by (simp add: unat_AlignUp_32 u aligned_size_def)
  then have b: "AlignUp (ucast sz :: 32 word) ALLOC_ALIGNMENT = of_nat (aligned_size (unat sz))"
    by (metis of_nat_unat ucast_id)
  have c: "(AlignUp (ucast sz :: 32 word) ALLOC_ALIGNMENT \<le> large) = (aligned_size (unat sz) \<le> unat large)"
    by (simp add: word_le_nat_alt a)
  show "AggregateAllocator_Allocate large size_to_idx sz =
           (if aligned_size (unat sz) \<le> unat large
            then PageAllocator_Allocate (size_to_idx (of_nat (aligned_size (unat sz))))
            else PagePool_GetPage sz)"
    unfolding AggregateAllocator_Allocate_def Let_def c by (simp add: b)
  show "AggregateAllocator_Deallocate large size_to_idx p sz =
           (if aligned_size (unat sz) \<le> unat large
            then PageAllocator_Deallocate (size_to_idx (of_nat (aligned_size (unat sz)))) p
            else PagePool_ReturnPage p sz)"
    unfolding AggregateAllocator_Deallocate_def Let_def c by (simp add: b)
qed

section \<open>The claims\<close>

text \<open>
  The claims about states are stated for every state \<open>w\<close> that a sequence \<open>cs\<close> of calls
  reaches from the allocator as constructed for a slot size \<open>sz\<close>, over a page supplier
  that has handed out no page yet, with \<open>live\<close> the pointers allocated and not yet
  deallocated.
\<close>

text \<open>
  C1. In every state reached by a sequence of \<^verbatim>\<open>Allocate\<close> and \<^verbatim>\<open>Deallocate\<close> calls, the
  pages linked from \<^verbatim>\<open>nonFull\<close> form a list \<open>xs\<close>, and a resident page is in \<open>xs\<close> if and
  only if its count of free slots is not 0.
\<close>

theorem C1_nonFull_iff_free_slot:
  assumes "page_size_ok PS" and "pool_ok PS pl" and "held pl = []"
    and "exec PS (init_world sz pl m, []) cs = Inr (w, live)"
  shows "\<exists>xs. dlist (pages w) (nonFull (pa w)) xs \<and>
           (\<forall>p pg. pages w p = Some pg \<longrightarrow> (p \<in> set xs \<longleftrightarrow> pg_free pg \<noteq> 0))"
proof -
  from reach_Inv[OF assms]
  consider "Inv PS w live" | "w = init_world sz pl m" by blast
  then show ?thesis
  proof cases
    case 1
    then have "list_inv w" by (intro InvGD(6)[OF InvD])
    then show ?thesis unfolding list_inv_def by blast
  next
    case 2
    show ?thesis unfolding 2
      by (rule exI[of _ "[]"]) (simp add: init_world_def PageAllocator_new_def dlist_def)
  qed
qed

text \<open>
  The witness: three allocations of 2016 bytes from pages of 4096 bytes (two slots a
  page), then the release of the first.
\<close>

theorem C1_witness:
  "\<exists>w xs. exec 4096 (init_world 2016 \<lparr>avail = [4096, 8192], held = []\<rparr> filled_mem, [])
            [Alloc, Alloc, Alloc, Dealloc 4128] = Inr (w, [8224, 6144])
     \<and> dlist (pages w) (nonFull (pa w)) xs
     \<and> (\<forall>p pg. pages w p = Some pg \<longrightarrow> (p \<in> set xs \<longleftrightarrow> pg_free pg \<noteq> 0))"
proof -
  from run_example obtain w where
    e: "exec 4096 (init_world 2016 \<lparr>avail = [4096, 8192], held = []\<rparr> filled_mem, [])
            [Alloc, Alloc, Alloc, Dealloc 4128] = Inr (w, [8224, 6144])" by blast
  from C1_nonFull_iff_free_slot[OF page_size_4096 pool_two_pages _ e]
  show ?thesis using e by auto
qed

text \<open>
  C2. In every reached state no resident page has \<^verbatim>\<open>free == total\<close>; and \<^verbatim>\<open>Deallocate\<close> of a
  live pointer returns, and when it makes the \<^verbatim>\<open>free\<close> of the pointer's page equal to its
  \<^verbatim>\<open>total\<close>, the state it returns no longer holds the page, the page is back at the
  supplier, and no list from \<^verbatim>\<open>nonFull\<close> contains it; otherwise the page stays and the
  supplier is not called.
\<close>

theorem C2_idle_page_released:
  assumes "page_size_ok PS" and "pool_ok PS pl" and "held pl = []"
    and "exec PS (init_world sz pl m, []) cs = Inr (w, live)"
  shows "(\<forall>q qg. pages w q = Some qg \<longrightarrow> pg_free qg \<noteq> pg_total qg)
       \<and> (\<forall>p \<in> set live. \<exists>w' pg. Deallocate PS w p = Inr w'
             \<and> pages w (AlignDown p PS) = Some pg
             \<and> (if pg_free pg + 1 = pg_total pg
                 then pages w' (AlignDown p PS) = None
                      \<and> pool w' = ReturnPage (pool w) (AlignDown p PS)
                      \<and> (\<forall>xs. dlist (pages w') (nonFull (pa w')) xs \<longrightarrow> AlignDown p PS \<notin> set xs)
                 else pages w' (AlignDown p PS) \<noteq> None \<and> pool w' = pool w))"
proof -
  from reach_Inv[OF assms]
  consider "Inv PS w live" | "w = init_world sz pl m" "live = []" by blast
  then show ?thesis
  proof cases
    case 1
    then have a: "\<forall>q qg. pages w q = Some qg \<longrightarrow> pg_free qg \<noteq> pg_total qg"
      by (simp add: Inv_def no_idle_def)
    have b: "\<exists>w' pg. Deallocate PS w p = Inr w'
             \<and> pages w (AlignDown p PS) = Some pg
             \<and> (if pg_free pg + 1 = pg_total pg
                 then pages w' (AlignDown p PS) = None
                      \<and> pool w' = ReturnPage (pool w) (AlignDown p PS)
                      \<and> (\<forall>xs. dlist (pages w') (nonFull (pa w')) xs \<longrightarrow> AlignDown p PS \<notin> set xs)
                 else pages w' (AlignDown p PS) \<noteq> None \<and> pool w' = pool w)" if p: "p \<in> set live" for p
    proof -
      from Deallocate_ok[OF assms(1) 1 p] obtain w' pg where d: "Deallocate PS w p = Inr w'"
        "pages w (AlignDown p PS) = Some pg"
        "if pg_free pg + 1 = pg_total pg
         then pages w' (AlignDown p PS) = None \<and> pool w' = ReturnPage (pool w) (AlignDown p PS)
         else pages w' (AlignDown p PS) \<noteq> None \<and> pool w' = pool w" by blast
      have "AlignDown p PS \<notin> set xs" if "pages w' (AlignDown p PS) = None" "dlist (pages w') (nonFull (pa w')) xs" for xs
        using dseg_resident[of "pages w'" 0 "nonFull (pa w')" xs 0 "AlignDown p PS"] that
        by (auto simp: dlist_def)
      then show ?thesis using d by (intro exI[of _ w'] exI[of _ pg]) (auto split: if_splits)
    qed
    show ?thesis using a b by blast
  next
    case 2
    then show ?thesis by (simp add: init_world_def)
  qed
qed

text \<open>
  The witness: in the state after the run above the page at 8192 has one of its two
  slots free; the release of its other slot, 8224, gives the page back.
\<close>

theorem C2_witness:
  "\<exists>w w'. exec 4096 (init_world 2016 \<lparr>avail = [4096, 8192], held = []\<rparr> filled_mem, [])
            [Alloc, Alloc, Alloc, Dealloc 4128] = Inr (w, [8224, 6144])
     \<and> (\<forall>q qg. pages w q = Some qg \<longrightarrow> pg_free qg \<noteq> pg_total qg)
     \<and> Deallocate 4096 w 8224 = Inr w'
     \<and> pages w 8192 \<noteq> None \<and> pages w' 8192 = None \<and> pool w' = ReturnPage (pool w) 8192"
proof -
  from run_example obtain w pg where
    e: "exec 4096 (init_world 2016 \<lparr>avail = [4096, 8192], held = []\<rparr> filled_mem, [])
            [Alloc, Alloc, Alloc, Dealloc 4128] = Inr (w, [8224, 6144])"
    and pg: "pages w 8192 = Some pg" "pg_free pg = 1" "pg_total pg = 2" by blast
  have a: "AlignDown 8224 4096 = 8192" by (simp add: AlignDown_def)
  from C2_idle_page_released[OF page_size_4096 pool_two_pages _ e]
  show ?thesis using e pg a by auto
qed

text \<open>
  C3. Every pointer that \<^verbatim>\<open>Allocate\<close> returns in a reached state is not null, is a
  multiple of the allocation alignment (8), and the \<open>sz\<close> bytes from it are zero in the
  memory that \<^verbatim>\<open>Allocate\<close> leaves.
\<close>

theorem C3_pointer_aligned_and_zeroed:
  assumes "page_size_ok PS" and "pool_ok PS pl" and "held pl = []"
    and "exec PS (init_world sz pl m, []) cs = Inr (w, live)"
    and "Allocate PS w = Inr (x, w')"
  shows "x \<noteq> 0 \<and> unat (ALLOC_ALIGNMENT :: 16 word) dvd x \<and> (\<forall>i < unat sz. mem w' (x + i) = 0)"
proof -
  from reach_Inv[OF assms(1-4)]
  have cf: "slotSize (pa w) = sz"
    and c: "Inv PS w live \<or> (w = init_world sz pl m \<and> slotAlignment (pa w) = 0)" by blast+
  have "\<not> (w = init_world sz pl m \<and> slotAlignment (pa w) = 0)"
    using Allocate_init_fails[OF _ _ assms(5)] by (auto simp: init_world_def PageAllocator_new_def)
  with c have inv: "Inv PS w live" by blast
  from Allocate_ok[OF assms(1) inv assms(5)] obtain h where
    a: "Inv PS w' (x # live)" "x \<noteq> 0" "h \<in> dom (pages w')"
      "x \<in> set (slots_of PS (unat (slotAlignment (pa w))) h)"
      "slotAlignment (pa w') = slotAlignment (pa w)"
      "\<forall>i < unat (slotSize (pa w)). mem w' (x + i) = 0" by blast
  have "8 dvd x" using Inv_aligned(1)[OF assms(1) a(1) a(3)] a(4,5) by simp
  then show ?thesis using a(2,6) cf by (simp add: AA)
qed

text \<open>The witness: the first allocation, from a memory of bytes 255.\<close>

theorem C3_witness:
  "\<exists>w'. Allocate 4096 (init_world 2016 \<lparr>avail = [4096, 8192], held = []\<rparr> filled_mem) = Inr (4128, w')
      \<and> (8::nat) dvd 4128 \<and> (\<forall>i < 2016. mem w' (4128 + i) = 0)"
proof -
  from alloc_example obtain w' where
    a: "Allocate 4096 (init_world 2016 \<lparr>avail = [4096, 8192], held = []\<rparr> filled_mem) = Inr (4128, w')"
    by blast
  have e: "exec 4096 (init_world 2016 \<lparr>avail = [4096, 8192], held = []\<rparr> filled_mem, []) []
       = Inr (init_world 2016 \<lparr>avail = [4096, 8192], held = []\<rparr> filled_mem, [])" by simp
  from C3_pointer_aligned_and_zeroed[OF page_size_4096 pool_two_pages _ e a]
  show ?thesis using a by (auto simp: AA)
qed

text \<open>
  C4 (as amended). Every pointer that \<^verbatim>\<open>Allocate\<close> returns in a reached state lies a whole
  number \<open>k\<close> of strides after the first slot of its page, which is at the page's address
  plus the rounded header size, with \<open>k\<close> below the slot count of a page.
\<close>

theorem C4_pointer_on_stride_grid:
  assumes "page_size_ok PS" and "pool_ok PS pl" and "held pl = []"
    and "exec PS (init_world sz pl m, []) cs = Inr (w, live)"
    and "Allocate PS w = Inr (x, w')"
  shows "\<exists>k < slot_count PS (slotAlignment (pa w)).
           x = AlignDown x PS + offset + k * unat (slotAlignment (pa w))"
proof -
  from reach_Inv[OF assms(1-4)]
  have c: "Inv PS w live \<or> (w = init_world sz pl m \<and> slotAlignment (pa w) = 0)" by blast
  have "\<not> (w = init_world sz pl m \<and> slotAlignment (pa w) = 0)"
    using Allocate_init_fails[OF _ _ assms(5)] by (auto simp: init_world_def PageAllocator_new_def)
  with c have inv: "Inv PS w live" by blast
  from Allocate_ok[OF assms(1) inv assms(5)] obtain h where
    a: "Inv PS w' (x # live)" "h \<in> dom (pages w')"
      "x \<in> set (slots_of PS (unat (slotAlignment (pa w))) h)"
      "slotAlignment (pa w') = slotAlignment (pa w)" by blast
  have "AlignDown x PS = h" using Inv_aligned(2)[OF assms(1) a(1) a(2)] a(3,4) by simp
  then show ?thesis using a(3) by (simp add: slots_of_mem slot_count_eq[OF assms(1)])
qed

text \<open>The witness: the first allocation of 2016 bytes, at stride 0 of the page at 4096.\<close>

theorem C4_witness:
  "\<exists>w' k. Allocate 4096 (init_world 2016 \<lparr>avail = [4096, 8192], held = []\<rparr> filled_mem) = Inr (4128, w')
      \<and> k < slot_count 4096 2016 \<and> (4128::nat) = 4096 + offset + k * 2016"
proof -
  from alloc_example obtain w' where
    a: "Allocate 4096 (init_world 2016 \<lparr>avail = [4096, 8192], held = []\<rparr> filled_mem) = Inr (4128, w')"
    by blast
  have e: "exec 4096 (init_world 2016 \<lparr>avail = [4096, 8192], held = []\<rparr> filled_mem, []) []
       = Inr (init_world 2016 \<lparr>avail = [4096, 8192], held = []\<rparr> filled_mem, [])" by simp
  from C4_pointer_on_stride_grid[OF page_size_4096 pool_two_pages _ e a]
  show ?thesis using a by (auto simp: init_world_def PageAllocator_new_def AlignUp_2016 AlignDown_def)
qed

text \<open>
  C4 as the claim states it fails: for the slot size 64 the stride is 64, and the first
  pointer from the page at 4096 is 4128 = 4096 + 32, which is not a multiple of 64.
\<close>

theorem C4_counterexample:
  "map_sum id fst (Allocate 4096 (init_world 64 \<lparr>avail = [4096], held = []\<rparr> filled_mem)) = Inr 4128
   \<and> \<not> unat (slotAlignment (pa (init_world 64 \<lparr>avail = [4096], held = []\<rparr> filled_mem))) dvd (4128::nat)"
  using alloc_64 by (simp add: init_world_def PageAllocator_new_def AlignUp_64)

text \<open>
  C5 (the code at the input where it leaves the claim). A request of \<open>2 ^ 32\<close> bytes: its
  size rounded up to the alignment is \<open>2 ^ 32\<close>, above every value the 32-bit largest
  size class can have, so the claim sends it to the page supplier's region path. The code
  compares the size cut to 32 bits, which is 0, and hands the request to the size-class
  allocator of the index for size 0.
\<close>

theorem C5_routing_at_4GiB:
  "unat large < aligned_size (unat (4294967296 :: 64 word))
   \<and> AggregateAllocator_Allocate large size_to_idx 4294967296
       = PageAllocator_Allocate (size_to_idx 0)"
proof -
  have "unat large < 2 ^ 32" using unsigned_less[of large] by simp
  moreover have "AlignUp (ucast (4294967296 :: 64 word) :: 32 word) ALLOC_ALIGNMENT = 0"
    by (simp add: AlignUp_def AA)
  ultimately show ?thesis
    unfolding AggregateAllocator_Allocate_def by (simp add: aligned_size_def)
qed

text \<open>
  C6. In every reached state the live pointers are distinct, and the ranges of \<open>sz\<close>
  bytes that start at two different live pointers do not overlap.
\<close>

theorem C6_live_allocations_disjoint:
  assumes "page_size_ok PS" and "pool_ok PS pl" and "held pl = []"
    and "exec PS (init_world sz pl m, []) cs = Inr (w, live)"
  shows "distinct live \<and>
         (\<forall>a \<in> set live. \<forall>b \<in> set live. a \<noteq> b \<longrightarrow> a + unat sz \<le> b \<or> b + unat sz \<le> a)"
proof -
  from reach_Inv[OF assms]
  have cf: "slotSize (pa w) = sz" and c: "Inv PS w live \<or> live = []" by blast+
  from c show ?thesis
  proof
    assume inv: "Inv PS w live"
    then have "distinct live" by (intro InvGD(8)[OF InvD])
    then show ?thesis using Inv_live_apart[OF inv] cf by blast
  next
    assume "live = []" then show ?thesis by simp
  qed
qed

text \<open>The witness: the two pointers live after the run above, 6144 and 8224.\<close>

theorem C6_witness:
  "\<exists>w. exec 4096 (init_world 2016 \<lparr>avail = [4096, 8192], held = []\<rparr> filled_mem, [])
            [Alloc, Alloc, Alloc, Dealloc 4128] = Inr (w, [8224, 6144])
     \<and> distinct [8224, 6144 :: nat] \<and> (6144::nat) + unat (2016 :: 16 word) \<le> 8224"
proof -
  from run_example obtain w where
    e: "exec 4096 (init_world 2016 \<lparr>avail = [4096, 8192], held = []\<rparr> filled_mem, [])
            [Alloc, Alloc, Alloc, Dealloc 4128] = Inr (w, [8224, 6144])" by blast
  from C6_live_allocations_disjoint[OF page_size_4096 pool_two_pages _ e]
  show ?thesis using e by auto
qed

text \<open>
  C7. After \<open>N\<close> allocations from the allocator as constructed, \<open>N\<close> pointers are live;
  deallocating them in any order \<open>ds\<close> succeeds and leaves \<^verbatim>\<open>totalPages\<close> at its initial
  value, no resident page, and every page back at the supplier.
\<close>

theorem C7_round_trip_releases_all_pages:
  assumes "page_size_ok PS" and "pool_ok PS pl" and "held pl = []"
    and "exec PS (init_world sz pl m, []) (replicate N Alloc) = Inr (w, live)"
    and "mset ds = mset live"
  shows "length live = N \<and>
         (\<exists>w'. exec PS (w, live) (map Dealloc ds) = Inr (w', [])
            \<and> totalPages (pa w') = totalPages (pa (init_world sz pl m))
            \<and> pages w' = Map.empty \<and> held (pool w') = []
            \<and> set (avail (pool w')) = set (avail pl))"
proof (cases "AlignUp sz ALLOC_ALIGNMENT = 0")
  case True
  from exec_sa0[OF True assms(4)] have "replicate N Alloc = []" .
  then have "N = 0" by simp
  with assms(4) have e: "w = init_world sz pl m" "live = []" by simp_all
  then have "ds = []" using assms(5) by simp
  then show ?thesis using e \<open>N = 0\<close> assms(3) by (simp add: init_world_def)
next
  case False
  note i = init_Inv[OF assms(2,3) False, of m]
  from exec_Inv[OF assms(1) i assms(4)] have inv: "Inv PS w live"
    and pl: "set (avail (pool w) @ held (pool w)) = set (avail pl @ held pl)"
    by (simp_all add: init_world_def)
  from alloc_count[OF assms(1) i assms(4)] have n: "length live = N" by simp
  from dealloc_all[OF assms(1) inv assms(5)] obtain w' where
    w': "exec PS (w, live) (map Dealloc ds) = Inr (w', [])" "Inv PS w' []"
      "set (avail (pool w') @ held (pool w')) = set (avail (pool w) @ held (pool w))" by blast
  note z = Inv_empty[OF assms(1) w'(2)]
  have "set (avail (pool w')) = set (avail pl)" using w'(3) pl z(2) assms(3) by simp
  then show ?thesis using n w'(1) z
    by (intro conjI exI[of _ w']) (simp_all add: init_world_def PageAllocator_new_def)
qed

text \<open>
  The witness: three allocations, which take two pages, released in another order than
  they were made.
\<close>

theorem C7_witness:
  "\<exists>w w'. exec 4096 (init_world 2016 \<lparr>avail = [4096, 8192], held = []\<rparr> filled_mem, [])
            (replicate 3 Alloc) = Inr (w, [8224, 6144, 4128])
     \<and> exec 4096 (w, [8224, 6144, 4128]) (map Dealloc [6144, 8224, 4128]) = Inr (w', [])
     \<and> totalPages (pa w') = 0 \<and> pages w' = Map.empty \<and> held (pool w') = []
     \<and> set (avail (pool w')) = {4096, 8192}"
proof -
  from run_three obtain w where
    e: "exec 4096 (init_world 2016 \<lparr>avail = [4096, 8192], held = []\<rparr> filled_mem, [])
            (replicate 3 Alloc) = Inr (w, [8224, 6144, 4128])" by blast
  have p: "mset [6144, 8224, 4128 :: nat] = mset [8224, 6144, 4128]" by simp
  from C7_round_trip_releases_all_pages[OF page_size_4096 pool_two_pages _ e p]
  show ?thesis using e by (auto simp: init_world_def PageAllocator_new_def)
qed




text \<open>
  C9 (as amended). When the list of pages is empty and the supplier has no page to
  give, \<^verbatim>\<open>Allocate\<close> returns no pointer to its caller and asks the supplier once: the call
  ends in the write through the null page pointer at the start of \<^verbatim>\<open>InitPage\<close>, which
  is undefined behaviour and none of the checks that abort with a diagnostic.
\<close>

theorem C9_supplier_failure_null_deref:
  "nonFull (pa w) = 0 \<Longrightarrow> avail (pool w) = [] \<Longrightarrow>
   Allocate PS w = Inl NullDeref \<and> \<not> is_check_failure NullDeref"
  by (simp add: Allocate_def Allocate_new_page_def GetPage_def InitPage_def then_do_def
      is_check_failure_def)

text \<open>The witness: the first allocation over a supplier without pages.\<close>

theorem C9_witness:
  "Allocate 4096 (init_world 16 \<lparr>avail = [], held = []\<rparr> filled_mem) = Inl NullDeref"
  using C9_supplier_failure_null_deref[of "init_world 16 \<lparr>avail = [], held = []\<rparr> filled_mem" 4096]
  by (simp add: init_world_def PageAllocator_new_def)

text \<open>
  C9 as the claim states it fails: with a supplier that has no page, the first
  \<^verbatim>\<open>Allocate\<close> of an allocator does not end in a failed check.
\<close>

theorem C9_counterexample:
  "Allocate 4096 (init_world 16 \<lparr>avail = [], held = []\<rparr> filled_mem) = Inl NullDeref
   \<and> \<not> is_check_failure NullDeref"
  by (simp add: Allocate_def Allocate_new_page_def GetPage_def InitPage_def then_do_def
      init_world_def PageAllocator_new_def is_check_failure_def)

text \<open>
  C10. The routing reads the requested size through \<^verbatim>\<open>static_cast<uint32_t>\<close>: a request
  of more than \<open>2 ^ 32\<close> bytes whose low 32 bits \<open>s\<close> round up to at most the largest
  size class is handed, by \<^verbatim>\<open>Allocate\<close> and by \<^verbatim>\<open>Deallocate\<close>, to the size-class
  allocator for \<open>s\<close>, not to the page supplier.
\<close>

theorem C10_routing_truncates_to_32_bits:
  "ucast sz = (s :: 32 word) \<Longrightarrow> AlignUp s ALLOC_ALIGNMENT \<le> large \<Longrightarrow> 2 ^ 32 < unat sz \<Longrightarrow>
   AggregateAllocator_Allocate large size_to_idx sz
     = PageAllocator_Allocate (size_to_idx (AlignUp s ALLOC_ALIGNMENT))
   \<and> AggregateAllocator_Deallocate large size_to_idx p sz
     = PageAllocator_Deallocate (size_to_idx (AlignUp s ALLOC_ALIGNMENT)) p"
  by (simp add: AggregateAllocator_Allocate_def AggregateAllocator_Deallocate_def Let_def)

text \<open>The witness: a request of \<open>2 ^ 33\<close> bytes, whatever the size classes are.\<close>

theorem C10_witness:
  "\<forall>large size_to_idx p.
     AggregateAllocator_Allocate large size_to_idx 8589934592 = PageAllocator_Allocate (size_to_idx 0)
   \<and> AggregateAllocator_Deallocate large size_to_idx p 8589934592
       = PageAllocator_Deallocate (size_to_idx 0) p"
  using C10_routing_truncates_to_32_bits[of 8589934592 0] by (simp add: AlignUp_def AA)

end
